theory Spec2Isabelle
  imports Main "HOL-Library.AList"
begin

section \<open>JavaScript values, property keys and raw objects\<close>

text \<open>
  The reactive core (\<open>core/reactive.js\<close>: \<open>effect\<close>, \<open>cleanup\<close>, \<open>stop\<close>, \<open>track\<close>,
  \<open>trigger\<close>, \<open>reactiveHandlers\<close>, \<open>reactive\<close>, \<open>ref\<close>, \<open>computed\<close>, \<open>watch\<close>,
  \<open>batch\<close>) is embedded over an explicit store. Raw objects, proxies, refs, computed
  refs, watchers and effect functions live in tables indexed by their allocation number,
  which stands for JavaScript object identity.

  Values are the primitives and references to raw objects and to proxies. A finite
  number is an \<open>int\<close> (\<open>===\<close> is then equality); \<open>NaN\<close> is a value of its own because
  \<open>NaN !== NaN\<close>. Ref objects and functions are not values of the model: they are
  addressed by the operations that use them.
\<close>

datatype val = VUndefined | VNull | VBool bool | VNum int | VNaN | VStr string
  | VObj nat | VProxy nat

text \<open>
  A property key is a string or a symbol (\<open>Sym\<close>). The strings that are the decimal
  numeral of a natural number are written \<open>Idx n\<close> (an array index when
  \<open>n < 2^32 - 1\<close>, an ordinary property name otherwise); every other string \<open>x\<close> is
  \<open>Name x\<close>, also one that \<open>Number\<close> converts to a number, such as \<open>-1\<close>, \<open>1.5\<close> or the
  empty string; a decimal numeral is never written as a \<open>Name\<close>. A string is a list of code
  units below 256.
\<close>

datatype key = Idx nat | Name string | Sym string

datatype exn = TypeError | RangeError | Exn val

datatype 'a outcome = Normal 'a | Thrown exn

definition strict_eq :: "val \<Rightarrow> val \<Rightarrow> bool" where
  "strict_eq a b = (a = b \<and> a \<noteq> VNaN)"

definition truthy :: "val \<Rightarrow> bool" where
  "truthy v = (case v of VUndefined \<Rightarrow> False | VNull \<Rightarrow> False | VBool b \<Rightarrow> b
     | VNum n \<Rightarrow> n \<noteq> 0 | VNaN \<Rightarrow> False | VStr s \<Rightarrow> s \<noteq> [] | VObj a \<Rightarrow> True
     | VProxy p \<Rightarrow> True)"

text \<open>\<open>v !== null && typeof v === 'object'\<close>\<close>

definition is_object :: "val \<Rightarrow> bool" where
  "is_object v = (case v of VObj a \<Rightarrow> True | VProxy p \<Rightarrow> True | _ \<Rightarrow> False)"

subsection \<open>\<open>Number\<close> of a string\<close>

text \<open>
  \<open>StringToNumber\<close>: white space is trimmed; the empty string is 0; \<open>0x\<close>, \<open>0o\<close> and
  \<open>0b\<close> start an unsigned integer in that radix; otherwise an optional sign is followed
  by \<open>Infinity\<close> or by a decimal literal with optional fraction and exponent. Everything
  else is \<open>NaN\<close>. The result of the parse is the exact value \<open>m * 10^e\<close>, negated when \<open>neg\<close> (\<open>SDec neg m e\<close>),
  before it is rounded to a double.
\<close>

datatype strnum = SNaN | SInf bool | SDec bool int int

definition is_ws :: "char \<Rightarrow> bool" where
  "is_ws c = (of_char c \<in> {9, 10, 11, 12, 13, 32, 160 :: nat})"

definition trim :: "string \<Rightarrow> string" where
  "trim s = rev (dropWhile is_ws (rev (dropWhile is_ws s)))"

definition digit_of :: "int \<Rightarrow> char \<Rightarrow> int option" where
  "digit_of b c =
     (let n = of_char c :: int;
          d = (if 48 \<le> n \<and> n \<le> 57 then Some (n - 48)
               else if 97 \<le> n \<and> n \<le> 102 then Some (n - 87)
               else if 65 \<le> n \<and> n \<le> 70 then Some (n - 55)
               else None)
      in case d of None \<Rightarrow> None | Some v \<Rightarrow> if v < b then Some v else None)"

fun digits_val :: "int \<Rightarrow> string \<Rightarrow> int \<Rightarrow> int option" where
  "digits_val b [] acc = Some acc"
| "digits_val b (c # cs) acc =
     (case digit_of b c of None \<Rightarrow> None | Some d \<Rightarrow> digits_val b cs (acc * b + d))"

definition is_digit :: "char \<Rightarrow> bool" where
  "is_digit c = (digit_of 10 c \<noteq> None)"

definition parse_radix :: "int \<Rightarrow> string \<Rightarrow> strnum" where
  "parse_radix b ds =
     (if ds = [] then SNaN
      else case digits_val b ds 0 of None \<Rightarrow> SNaN | Some n \<Rightarrow> SDec False n 0)"

text \<open>The exponent after \<open>e\<close>: an optional sign and at least one digit.\<close>

definition parse_exp :: "string \<Rightarrow> int option" where
  "parse_exp s =
     (case s of
        [] \<Rightarrow> None
      | c # cs \<Rightarrow>
          (if c = CHR ''+'' \<or> c = CHR ''-'' then
             (if cs = [] then None
              else map_option (\<lambda>n. if c = CHR ''-'' then - n else n) (digits_val 10 cs 0))
           else digits_val 10 s 0))"

text \<open>
  An unsigned decimal literal: digits, an optional point with digits (digits on one side
  of the point at least), an optional exponent. The result is mantissa and exponent.
\<close>

definition parse_decimal :: "string \<Rightarrow> (int \<times> int) option" where
  "parse_decimal s =
     (let ip = takeWhile is_digit s;
          r1 = dropWhile is_digit s;
          dot = (r1 \<noteq> [] \<and> hd r1 = CHR ''.'');
          fp = (if dot then takeWhile is_digit (tl r1) else []);
          r2 = (if dot then dropWhile is_digit (tl r1) else r1)
      in if ip = [] \<and> fp = [] then None
         else case digits_val 10 (ip @ fp) 0 of
                None \<Rightarrow> None
              | Some m \<Rightarrow>
                  (if r2 = [] then Some (m, - int (length fp))
                   else if hd r2 = CHR ''e'' \<or> hd r2 = CHR ''E''
                   then map_option (\<lambda>x. (m, x - int (length fp))) (parse_exp (tl r2))
                   else None))"

definition str_to_num :: "string \<Rightarrow> strnum" where
  "str_to_num s0 =
     (let s = trim s0; p = take 2 s in
      if s = [] then SDec False 0 0
      else if p = ''0x'' \<or> p = ''0X'' then parse_radix 16 (drop 2 s)
      else if p = ''0o'' \<or> p = ''0O'' then parse_radix 8 (drop 2 s)
      else if p = ''0b'' \<or> p = ''0B'' then parse_radix 2 (drop 2 s)
      else
        (let neg = (hd s = CHR ''-'');
             r = (if hd s = CHR ''-'' \<or> hd s = CHR ''+'' then tl s else s)
         in if r = ''Infinity'' then SInf neg
            else case parse_decimal r of None \<Rightarrow> SNaN | Some (m, e) \<Rightarrow> SDec neg m e))"

text \<open>
  The comparisons below are with a natural number \<open>n < 2^53\<close> (an array length), which
  is a double. The exact value \<open>x\<close> is rounded to the nearest double, ties to the even
  mantissa, and \<open>n\<close> has an even mantissa: \<open>x\<close> rounds to \<open>n\<close> exactly when
  \<open>n - 2^-gap_below n \<le> x \<le> n + 2^-gap_above n\<close>, half the distance to the doubles next
  to \<open>n\<close> (for 0 these are the subnormals of size \<open>2^-1074\<close>, and a negative \<open>x\<close> gives \<open>-0\<close>).
\<close>

definition log2 :: "int \<Rightarrow> nat" where
  "log2 n = length (filter (\<lambda>k. 2 ^ k \<le> n) [1..<64])"

definition gap_below :: "int \<Rightarrow> nat" where
  "gap_below n = (if n = 0 then 1075 else if n = 2 ^ log2 n then 54 - log2 n else 53 - log2 n)"

definition gap_above :: "int \<Rightarrow> nat" where
  "gap_above n = (if n = 0 then 1075 else 53 - log2 n)"

text \<open>\<open>x < N / 2^j\<close> and \<open>x > N / 2^j\<close> for the exact value \<open>x\<close>, in integers.\<close>

definition dec_less :: "bool \<Rightarrow> int \<Rightarrow> int \<Rightarrow> int \<Rightarrow> nat \<Rightarrow> bool" where
  "dec_less neg m e N j =
     (let x = (if neg then - m else m)
      in if 0 \<le> e then x * 10 ^ nat e * 2 ^ j < N else x * 2 ^ j < N * 10 ^ nat (- e))"

definition dec_greater :: "bool \<Rightarrow> int \<Rightarrow> int \<Rightarrow> int \<Rightarrow> nat \<Rightarrow> bool" where
  "dec_greater neg m e N j =
     (let x = (if neg then - m else m)
      in if 0 \<le> e then N < x * 10 ^ nat e * 2 ^ j else N * 10 ^ nat (- e) < x * 2 ^ j)"

text \<open>\<open>x < n\<close> and \<open>x >= n\<close> for the double of \<open>x\<close>; both are false for \<open>NaN\<close>.\<close>

definition num_lt :: "strnum \<Rightarrow> nat \<Rightarrow> bool" where
  "num_lt x n =
     (case x of
        SNaN \<Rightarrow> False
      | SInf neg \<Rightarrow> neg
      | SDec neg m e \<Rightarrow>
          dec_less neg m e (int n * 2 ^ gap_below (int n) - 1) (gap_below (int n)))"

definition num_ge :: "strnum \<Rightarrow> nat \<Rightarrow> bool" where
  "num_ge x n =
     (case x of
        SNaN \<Rightarrow> False
      | SInf neg \<Rightarrow> \<not> neg
      | SDec neg m e \<Rightarrow>
          \<not> dec_less neg m e (int n * 2 ^ gap_below (int n) - 1) (gap_below (int n)))"

text \<open>The integer nearest to \<open>m * 10^e\<close>.\<close>

definition nearest :: "int \<Rightarrow> int \<Rightarrow> int" where
  "nearest m e = (if 0 \<le> e then m * 10 ^ nat e
                  else (2 * m + 10 ^ nat (- e)) div (2 * 10 ^ nat (- e)))"

text \<open>
  The array length a number stands for: its double is an integer below \<open>2^32\<close>
  (\<open>ToUint32\<close> of it is the number itself); \<open>None\<close> otherwise.
\<close>

definition num_uint32 :: "strnum \<Rightarrow> nat option" where
  "num_uint32 x =
     (case x of
        SNaN \<Rightarrow> None
      | SInf neg \<Rightarrow> None
      | SDec neg m e \<Rightarrow>
          (let n = (if neg then 0 else nearest m e)
           in if n < 4294967296
                 \<and> \<not> dec_less neg m e (n * 2 ^ gap_below n - 1) (gap_below n)
                 \<and> \<not> dec_greater neg m e (n * 2 ^ gap_above n + 1) (gap_above n)
              then Some (nat n) else None))"

text \<open>
  \<open>ArraySetLength\<close> converts the new length with \<open>ToNumber\<close> and throws a \<open>RangeError\<close>
  unless the result is a valid length. \<open>undefined\<close> is \<open>NaN\<close>, \<open>null\<close> is 0, \<open>true\<close> is 1, a
  string is converted as above. An object is converted by the \<open>toString\<close> of its
  prototype, and the answer here is the one for a plain object (\<open>[object Object]\<close>, which
  is \<open>NaN\<close>); the claims below are stated for primitive values.
\<close>

definition val_to_length :: "val \<Rightarrow> nat option" where
  "val_to_length v =
     (case v of
        VUndefined \<Rightarrow> None
      | VNull \<Rightarrow> Some 0
      | VBool b \<Rightarrow> Some (if b then 1 else 0)
      | VNum m \<Rightarrow> (if 0 \<le> m \<and> m < 4294967296 then Some (nat m) else None)
      | VNaN \<Rightarrow> None
      | VStr x \<Rightarrow> num_uint32 (str_to_num x)
      | VObj a \<Rightarrow> None
      | VProxy p \<Rightarrow> None)"

subsection \<open>Raw objects\<close>

text \<open>
  A raw object is a plain data object or an array. An array keeps its elements (a hole is
  \<open>None\<close>) apart from its other own properties; \<open>length\<close> is the number of elements.
  Prototype chains, accessors and frozen objects are outside the model, so
  \<open>Reflect.get\<close> is an own-property read and \<open>Reflect.set\<close> succeeds unless the value
  is not a valid array length.
\<close>

record jsobj =
  isArray :: bool
  elems :: "val option list"
  props :: "(key \<times> val) list"

definition lookup_prop :: "(key \<times> val) list \<Rightarrow> key \<Rightarrow> val" where
  "lookup_prop ps k = (case map_of ps k of None \<Rightarrow> VUndefined | Some v \<Rightarrow> v)"

text \<open>The element a key names in an array, when it is an array index.\<close>

definition array_index :: "key \<Rightarrow> nat option" where
  "array_index k =
     (case k of Idx i \<Rightarrow> if int i < 4294967295 then Some i else None | _ \<Rightarrow> None)"

definition raw_get :: "jsobj \<Rightarrow> key \<Rightarrow> val" where
  "raw_get ob k =
     (if isArray ob then
        (case array_index k of
           Some i \<Rightarrow> (if i < length (elems ob)
                       then (case elems ob ! i of None \<Rightarrow> VUndefined | Some v \<Rightarrow> v)
                       else VUndefined)
         | None \<Rightarrow> (if k = Name ''length'' then VNum (int (length (elems ob)))
                     else lookup_prop (props ob) k))
      else lookup_prop (props ob) k)"

text \<open>\<open>Object.prototype.hasOwnProperty.call(target, key)\<close>\<close>

definition hasOwnProperty :: "jsobj \<Rightarrow> key \<Rightarrow> bool" where
  "hasOwnProperty ob k =
     (if isArray ob then
        (case array_index k of
           Some i \<Rightarrow> i < length (elems ob) \<and> elems ob ! i \<noteq> None
         | None \<Rightarrow> k = Name ''length'' \<or> map_of (props ob) k \<noteq> None)
      else map_of (props ob) k \<noteq> None)"

text \<open>
  \<open>Reflect.set\<close>. Writing an index at or beyond the length fills the gap with holes;
  writing \<open>length\<close> truncates or fills with holes.
\<close>

definition raw_set :: "jsobj \<Rightarrow> key \<Rightarrow> val \<Rightarrow> exn + jsobj" where
  "raw_set ob k v =
     (if isArray ob then
        (case array_index k of
           Some i \<Rightarrow>
             Inr (if i < length (elems ob) then ob\<lparr>elems := (elems ob)[i := Some v]\<rparr>
                  else ob\<lparr>elems := elems ob @ replicate (i - length (elems ob)) None @ [Some v]\<rparr>)
         | None \<Rightarrow>
             (if k = Name ''length'' then
                (case val_to_length v of
                   Some n \<Rightarrow>
                     Inr (ob\<lparr>elems := take n (elems ob) @ replicate (n - length (elems ob)) None\<rparr>)
                 | None \<Rightarrow> Inl RangeError)
              else Inr (ob\<lparr>props := AList.update k v (props ob)\<rparr>)))
      else Inr (ob\<lparr>props := AList.update k v (props ob)\<rparr>))"

section \<open>Caller code\<close>

text \<open>
  The functions a caller passes in (effect bodies, schedulers, getters, setters, watch
  callbacks, \<open>onStop\<close> hooks, the function given to \<open>batch\<close>) are programs over the
  module's exports and plain property access: each constructor is one call, and its last
  argument is the rest of the program, a function of the call's result. A handle (a
  \<open>nat\<close>) names an effect function, a ref, a computed ref or a watcher by its allocation
  number. Caller code does not catch exceptions.
\<close>

datatype target = TObj nat | TRef nat | TComputed nat

datatype ttype = TSet | TAdd | TDelete

datatype 'p source = SrcFn 'p | SrcRef nat | SrcComputed nat

datatype flush = FlushSync | FlushPost | FlushPre

record wopts =
  immediate :: bool
  deep :: bool
  flush :: flush

datatype prog =
    Ret val
  | Throw val
  | Mark nat prog
  | NewObject "(key \<times> val) list" "val \<Rightarrow> prog"
  | NewArray "val list" "val \<Rightarrow> prog"
  | GetProp val key "val \<Rightarrow> prog"
  | SetProp val key val prog
  | CallReactive val "val \<Rightarrow> prog"
  | CallRef val "nat \<Rightarrow> prog"
  | RefGet nat "val \<Rightarrow> prog"
  | RefSet nat val prog
  | CallComputed prog "(val \<Rightarrow> prog) option" "nat \<Rightarrow> prog"
  | ComputedGet nat "val \<Rightarrow> prog"
  | ComputedSet nat val prog
  | CallEffect prog bool bool "(nat \<Rightarrow> prog) option" "prog option" "nat \<Rightarrow> prog"
  | Invoke nat "val \<Rightarrow> prog"
  | CallStop nat prog
  | CallWatch "prog source" "nat \<Rightarrow> val \<Rightarrow> val \<Rightarrow> prog" wopts "nat \<Rightarrow> prog"
  | OnCleanup nat prog prog
  | StopWatch nat prog
  | CallBatch prog prog
  | CallTrack target key prog
  | CallTrigger target key ttype prog

section \<open>Module state\<close>

text \<open>
  \<open>options.scheduler\<close> of an effect function: absent, a caller's function, the closure
  \<open>computed\<close> installs, or the closure \<open>watch\<close> installs.
\<close>

datatype sched = NoSched | UserSched "nat \<Rightarrow> prog" | ComputedSched nat | WatchSched nat

text \<open>
  An effect function with its properties \<open>deps\<close>, \<open>options\<close>, \<open>active\<close>. A member of
  \<open>effectFn.deps\<close> is a dependency set; a dependency set is created once per
  (target, key) and never replaced, so it is named by that pair.
\<close>

record eff =
  fn :: prog
  deps :: "(target \<times> key) list"
  opt_lazy :: bool
  opt_computed :: bool
  opt_scheduler :: sched
  opt_onStop :: "prog option"
  active :: bool

text \<open>The closure variables of one \<open>computed\<close> call.\<close>

record computed_ref =
  c_effect :: nat
  setter :: "(val \<Rightarrow> prog) option"
  c_value :: val
  dirty :: bool

text \<open>The closure variables of one \<open>watch\<close> call.\<close>

record watcher =
  w_effect :: nat
  callback :: "nat \<Rightarrow> val \<Rightarrow> val \<Rightarrow> prog"
  w_options :: wopts
  oldValue :: val
  w_cleanup :: "prog option"

datatype mtask = MJob nat | MPostHop nat

text \<open>
  The trace records the calls a claim speaks about; no operation reads it.
\<close>

datatype event =
    ETrack target key
  | ETrigger target key ttype
  | ERun nat
  | ESched nat
  | ECallback nat val val
  | EOnStop nat
  | EWarn
  | EMark nat

record state =
  heap :: "jsobj list"
  proxies :: "nat list"
  reactiveMap :: "(nat \<times> nat) list"
  refs :: "val list"
  computeds :: "computed_ref list"
  watchers :: "watcher list"
  effects :: "eff list"
  activeEffect :: "nat option"
  effectStack :: "nat list"
  targetMap :: "(target \<times> (key \<times> nat list) list) list"
  isBatching :: bool
  batchQueue :: "nat list"
  microtasks :: "mtask list"
  trace :: "event list"

definition init :: state where
  "init = \<lparr>heap = [], proxies = [], reactiveMap = [], refs = [], computeds = [],
     watchers = [], effects = [], activeEffect = None, effectStack = [], targetMap = [],
     isBatching = False, batchQueue = [], microtasks = [], trace = []\<rparr>"

subsection \<open>Results: a value or a thrown exception, with the state; \<open>None\<close> is out of fuel\<close>

type_synonym 'a M = "state \<Rightarrow> ('a outcome \<times> state) option"

definition ret :: "'a \<Rightarrow> 'a M" where
  "ret v = (\<lambda>s. Some (Normal v, s))"

definition throw :: "exn \<Rightarrow> 'a M" where
  "throw x = (\<lambda>s. Some (Thrown x, s))"

definition bnd :: "'a M \<Rightarrow> ('a \<Rightarrow> 'b M) \<Rightarrow> 'b M" where
  "bnd m f = (\<lambda>s. case m s of None \<Rightarrow> None
     | Some (Thrown x, s1) \<Rightarrow> Some (Thrown x, s1)
     | Some (Normal v, s1) \<Rightarrow> f v s1)"

definition upd :: "(state \<Rightarrow> state) \<Rightarrow> unit M" where
  "upd g = (\<lambda>s. Some (Normal (), g s))"

text \<open>\<open>try { m } finally { fin }\<close>\<close>

definition try_finally :: "'a M \<Rightarrow> unit M \<Rightarrow> 'a M" where
  "try_finally m fin = (\<lambda>s. case m s of None \<Rightarrow> None
     | Some (out, s1) \<Rightarrow>
         (case fin s1 of None \<Rightarrow> None
          | Some (Thrown x, s2) \<Rightarrow> Some (Thrown x, s2)
          | Some (Normal u, s2) \<Rightarrow> Some (out, s2)))"

text \<open>
  What the module calls back into: a caller's function, or \<open>trigger\<close> from the
  scheduler of a computed ref. The interpreter below ties the knot with fuel.
\<close>

datatype task = TProg prog | TTrigger target key ttype

type_synonym recT = "task \<Rightarrow> val M"

definition emit :: "event \<Rightarrow> state \<Rightarrow> state" where
  "emit ev s = s\<lparr>trace := trace s @ [ev]\<rparr>"

text \<open>\<open>Set.prototype.add\<close> on an insertion-ordered set.\<close>

definition set_add :: "'a \<Rightarrow> 'a list \<Rightarrow> 'a list" where
  "set_add x xs = (if x \<in> set xs then xs else xs @ [x])"

section \<open>track, cleanup, effect, stop\<close>

definition depsMap_get :: "(key \<times> nat list) list \<Rightarrow> key \<Rightarrow> nat list" where
  "depsMap_get dm k = (case map_of dm k of None \<Rightarrow> [] | Some d \<Rightarrow> d)"

text \<open>The dependency set of (target, key); empty when none was created.\<close>

definition dep_of :: "state \<Rightarrow> target \<Rightarrow> key \<Rightarrow> nat list" where
  "dep_of s t k = (case map_of (targetMap s) t of None \<Rightarrow> [] | Some dm \<Rightarrow> depsMap_get dm k)"

definition track :: "target \<Rightarrow> key \<Rightarrow> state \<Rightarrow> state" where
  "track t k s0 =
     (let s = emit (ETrack t k) s0 in
      case activeEffect s of
        None \<Rightarrow> s
      | Some e \<Rightarrow>
          (let depsMap = (case map_of (targetMap s) t of None \<Rightarrow> [] | Some dm \<Rightarrow> dm);
               dep = depsMap_get depsMap k
           in if e \<in> set dep then
                s\<lparr>targetMap := AList.update t (AList.update k dep depsMap) (targetMap s)\<rparr>
              else
                s\<lparr>targetMap := AList.update t (AList.update k (dep @ [e]) depsMap) (targetMap s),
                  effects := (effects s)[e := (effects s ! e)
                     \<lparr>deps := set_add (t, k) (deps (effects s ! e))\<rparr>]\<rparr>))"

text \<open>\<open>dep.delete(effectFn)\<close> for the dependency set of (t, k).\<close>

definition dep_delete :: "nat \<Rightarrow> target \<times> key \<Rightarrow> state \<Rightarrow> state" where
  "dep_delete e tk s =
     s\<lparr>targetMap := AList.map_entry (fst tk) (AList.map_entry (snd tk) (removeAll e)) (targetMap s)\<rparr>"

definition cleanup :: "nat \<Rightarrow> state \<Rightarrow> state" where
  "cleanup e s =
     (let s1 = fold (dep_delete e) (deps (effects s ! e)) s
      in s1\<lparr>effects := (effects s1)[e := (effects s1 ! e)\<lparr>deps := []\<rparr>]\<rparr>)"

text \<open>
  The stack is kept with its top first. \<open>begin_run\<close> is the runner up to the \<open>try\<close>,
  \<open>end_run\<close> its \<open>finally\<close> block.
\<close>

definition begin_run :: "nat \<Rightarrow> state \<Rightarrow> state" where
  "begin_run e s =
     (let s1 = cleanup e (emit (ERun e) s)
      in s1\<lparr>activeEffect := Some e, effectStack := e # effectStack s1\<rparr>)"

definition end_run :: "state \<Rightarrow> state" where
  "end_run s =
     (let st = tl (effectStack s)
      in s\<lparr>effectStack := st, activeEffect := (case st of [] \<Rightarrow> None | e # r \<Rightarrow> Some e)\<rparr>)"

text \<open>
  The runner \<open>effectFn\<close> that \<open>effect\<close> builds. Calling a handle that names no effect
  function is a \<open>TypeError\<close>.
\<close>

definition effectFn :: "recT \<Rightarrow> nat \<Rightarrow> val M" where
  "effectFn rec e = (\<lambda>s.
     if e < length (effects s) then
       try_finally (rec (TProg (fn (effects s ! e)))) (upd end_run) (begin_run e s)
     else throw TypeError s)"

definition new_effect :: "prog \<Rightarrow> bool \<Rightarrow> bool \<Rightarrow> sched \<Rightarrow> prog option \<Rightarrow> state \<Rightarrow> state" where
  "new_effect f lz cp sc os s =
     s\<lparr>effects := effects s @ [\<lparr>fn = f, deps = [], opt_lazy = lz, opt_computed = cp,
          opt_scheduler = sc, opt_onStop = os, active = True\<rparr>]\<rparr>"

definition effect :: "recT \<Rightarrow> prog \<Rightarrow> bool \<Rightarrow> bool \<Rightarrow> sched \<Rightarrow> prog option \<Rightarrow> nat M" where
  "effect rec f lz cp sc os = (\<lambda>s.
     let e = length (effects s); s1 = new_effect f lz cp sc os s
     in if \<not> lz then bnd (effectFn rec e) (\<lambda>r. ret e) s1 else ret e s1)"

definition set_inactive :: "nat \<Rightarrow> state \<Rightarrow> state" where
  "set_inactive e s = s\<lparr>effects := (effects s)[e := (effects s ! e)\<lparr>active := False\<rparr>]\<rparr>"

definition stop :: "recT \<Rightarrow> nat \<Rightarrow> val M" where
  "stop rec e = (\<lambda>s.
     if e < length (effects s) then
       (if active (effects s ! e) then
          (let s1 = set_inactive e (cleanup e s)
           in case opt_onStop (effects s1 ! e) of
                None \<Rightarrow> ret VUndefined s1
              | Some h \<Rightarrow> bnd (rec (TProg h)) (\<lambda>r. ret VUndefined) (emit (EOnStop e) s1))
        else ret VUndefined s)
     else throw TypeError s)"

section \<open>computed and watch: the closures they install\<close>

definition set_dirty :: "nat \<Rightarrow> bool \<Rightarrow> state \<Rightarrow> state" where
  "set_dirty c b s = s\<lparr>computeds := (computeds s)[c := (computeds s ! c)\<lparr>dirty := b\<rparr>]\<rparr>"

definition set_c_value :: "nat \<Rightarrow> val \<Rightarrow> state \<Rightarrow> state" where
  "set_c_value c v s = s\<lparr>computeds := (computeds s)[c := (computeds s ! c)\<lparr>c_value := v\<rparr>]\<rparr>"

definition set_oldValue :: "nat \<Rightarrow> val \<Rightarrow> state \<Rightarrow> state" where
  "set_oldValue w v s = s\<lparr>watchers := (watchers s)[w := (watchers s ! w)\<lparr>oldValue := v\<rparr>]\<rparr>"

definition set_w_cleanup :: "nat \<Rightarrow> prog \<Rightarrow> state \<Rightarrow> state" where
  "set_w_cleanup w p s = s\<lparr>watchers := (watchers s)[w := (watchers s ! w)\<lparr>w_cleanup := Some p\<rparr>]\<rparr>"

definition queueMicrotask :: "mtask \<Rightarrow> state \<Rightarrow> state" where
  "queueMicrotask m s = s\<lparr>microtasks := microtasks s @ [m]\<rparr>"

text \<open>The \<open>job\<close> closure of \<open>watch\<close>.\<close>

definition job :: "recT \<Rightarrow> nat \<Rightarrow> val M" where
  "job rec w = (\<lambda>s.
     bnd (case w_cleanup (watchers s ! w) of None \<Rightarrow> ret VUndefined | Some c \<Rightarrow> rec (TProg c))
       (\<lambda>u. bnd (effectFn rec (w_effect (watchers s ! w)))
         (\<lambda>newValue s1.
            let wt = watchers s1 ! w in
            if deep (w_options wt) \<or> \<not> strict_eq newValue (oldValue wt) \<or> is_object newValue
            then bnd (rec (TProg (callback wt w newValue (oldValue wt))))
                   (\<lambda>r. bnd (upd (set_oldValue w newValue)) (\<lambda>r. ret VUndefined))
                   (emit (ECallback w newValue (oldValue wt)) s1)
            else ret VUndefined s1)) s)"

text \<open>
  \<open>effect.options.scheduler(effect)\<close>: the caller's function; for a computed ref
  \<open>if (!dirty) { dirty = true; trigger(computedRef, 'value') }\<close>; for a watcher the
  flush policy, where \<open>post\<close> takes one more hop through the microtask queue.
\<close>

definition run_scheduler :: "recT \<Rightarrow> sched \<Rightarrow> nat \<Rightarrow> val M" where
  "run_scheduler rec sc e = (\<lambda>s.
     case sc of
       NoSched \<Rightarrow> ret VUndefined s
     | UserSched f \<Rightarrow> rec (TProg (f e)) s
     | ComputedSched c \<Rightarrow>
         (if \<not> dirty (computeds s ! c)
          then rec (TTrigger (TComputed c) (Name ''value'') TSet) (set_dirty c True s)
          else ret VUndefined s)
     | WatchSched w \<Rightarrow>
         (case flush (w_options (watchers s ! w)) of
            FlushSync \<Rightarrow> job rec w s
          | FlushPost \<Rightarrow> ret VUndefined (queueMicrotask (MPostHop w) s)
          | FlushPre \<Rightarrow> ret VUndefined (queueMicrotask (MJob w) s)))"

section \<open>trigger\<close>

text \<open>The accumulator is the pair of local sets (\<open>effects\<close>, \<open>computedEffects\<close>).\<close>

definition addEffects :: "state \<Rightarrow> nat list \<Rightarrow> nat list \<times> nat list \<Rightarrow> nat list \<times> nat list" where
  "addEffects s dep acc =
     fold (\<lambda>e (es, cs).
        if Some e \<noteq> activeEffect s then
          (if opt_computed (effects s ! e) then (es, set_add e cs) else (set_add e es, cs))
        else (es, cs)) dep acc"

definition target_isArray :: "state \<Rightarrow> target \<Rightarrow> bool" where
  "target_isArray s t = (case t of TObj a \<Rightarrow> a < length (heap s) \<and> isArray (heap s ! a) | _ \<Rightarrow> False)"

definition target_length :: "state \<Rightarrow> target \<Rightarrow> nat" where
  "target_length s t = (case t of TObj a \<Rightarrow> length (elems (heap s ! a)) | _ \<Rightarrow> 0)"

text \<open>
  \<open>k >= target.length\<close> for a key of the dependency map: the key is converted with
  \<open>Number\<close>; a symbol cannot be converted (\<open>TypeError\<close>, here \<open>None\<close>).
\<close>

definition key_ge :: "key \<Rightarrow> nat \<Rightarrow> bool option" where
  "key_ge k n =
     (case k of
        Idx i \<Rightarrow> Some (n \<le> i)
      | Name x \<Rightarrow> Some (num_ge (str_to_num x) n)
      | Sym x \<Rightarrow> None)"

fun length_loop ::
  "state \<Rightarrow> nat \<Rightarrow> (key \<times> nat list) list \<Rightarrow> nat list \<times> nat list \<Rightarrow> (nat list \<times> nat list) option" where
  "length_loop s n [] acc = Some acc"
| "length_loop s n (kd # dm) acc =
     (case key_ge (fst kd) n of
        None \<Rightarrow> None
      | Some b \<Rightarrow> length_loop s n dm (if b then addEffects s (snd kd) acc else acc))"

text \<open>The part of \<open>trigger\<close> that fills the two local sets.\<close>

definition collect ::
  "state \<Rightarrow> target \<Rightarrow> key \<Rightarrow> ttype \<Rightarrow> (key \<times> nat list) list \<Rightarrow> (nat list \<times> nat list) option" where
  "collect s t k ty depsMap =
     (let acc1 = addEffects s (depsMap_get depsMap k) ([], []);
          acc2 = (if ty = TAdd \<and> target_isArray s t
                  then addEffects s (depsMap_get depsMap (Name ''length'')) acc1 else acc1)
      in if k = Name ''length'' \<and> target_isArray s t
         then length_loop s (target_length s t) depsMap acc2
         else Some acc2)"

text \<open>One replay: through the scheduler when the effect has one, else directly.\<close>

definition replay :: "recT \<Rightarrow> nat \<Rightarrow> val M" where
  "replay rec e = (\<lambda>s.
     case opt_scheduler (effects s ! e) of
       NoSched \<Rightarrow> effectFn rec e s
     | sc \<Rightarrow> run_scheduler rec sc e (emit (ESched e) s))"

fun replay_all :: "recT \<Rightarrow> nat list \<Rightarrow> val M" where
  "replay_all rec [] = ret VUndefined"
| "replay_all rec (e # es) = bnd (replay rec e) (\<lambda>r. replay_all rec es)"

definition trigger :: "recT \<Rightarrow> target \<Rightarrow> key \<Rightarrow> ttype \<Rightarrow> val M" where
  "trigger rec t k ty = (\<lambda>s0.
     let s = emit (ETrigger t k ty) s0 in
     case map_of (targetMap s) t of
       None \<Rightarrow> ret VUndefined s
     | Some depsMap \<Rightarrow>
         (case collect s t k ty depsMap of
            None \<Rightarrow> throw TypeError s
          | Some (es, cs) \<Rightarrow> bnd (replay_all rec cs) (\<lambda>r. replay_all rec es) s))"

section \<open>reactive and its proxy handlers\<close>

definition reactive :: "val \<Rightarrow> state \<Rightarrow> val \<times> state" where
  "reactive v s =
     (case v of
        VProxy p \<Rightarrow> (v, s)
      | VObj a \<Rightarrow>
          (if truthy (raw_get (heap s ! a) (Name ''__isReactive'')) then (v, s)
           else case map_of (reactiveMap s) a of
                  Some p \<Rightarrow> (VProxy p, s)
                | None \<Rightarrow>
                    (VProxy (length (proxies s)),
                     s\<lparr>proxies := proxies s @ [a],
                       reactiveMap := AList.update a (length (proxies s)) (reactiveMap s)\<rparr>))
      | _ \<Rightarrow> (v, s))"

text \<open>\<open>reactiveHandlers.get\<close> on the raw object at address \<open>a\<close>.\<close>

definition handler_get :: "nat \<Rightarrow> key \<Rightarrow> state \<Rightarrow> val \<times> state" where
  "handler_get a k s =
     (if k = Name ''__isReactive'' then (VBool True, s)
      else if k = Name ''__raw'' then (VObj a, s)
      else
        (let result = raw_get (heap s ! a) k;
             s1 = track (TObj a) k s
         in if is_object result then reactive result s1 else (result, s1)))"

text \<open>
  \<open>hadKey\<close> of \<open>reactiveHandlers.set\<close>: \<open>Number(key) < target.length\<close> for an array
  (a \<open>TypeError\<close> for a symbol), \<open>hasOwnProperty\<close> otherwise.
\<close>

definition hadKey :: "jsobj \<Rightarrow> key \<Rightarrow> bool option" where
  "hadKey ob k =
     (if isArray ob then
        (case k of
           Idx i \<Rightarrow> Some (i < length (elems ob))
         | Name x \<Rightarrow> Some (num_lt (str_to_num x) (length (elems ob)))
         | Sym x \<Rightarrow> None)
      else Some (hasOwnProperty ob k))"

definition heap_store :: "nat \<Rightarrow> jsobj \<Rightarrow> state \<Rightarrow> state" where
  "heap_store a ob s = s\<lparr>heap := (heap s)[a := ob]\<rparr>"

definition handler_set :: "recT \<Rightarrow> nat \<Rightarrow> key \<Rightarrow> val \<Rightarrow> val M" where
  "handler_set rec a k v = (\<lambda>s.
     let ob = heap s ! a; old = raw_get ob k in
     case hadKey ob k of
       None \<Rightarrow> throw TypeError s
     | Some had \<Rightarrow>
         (case raw_set ob k v of
            Inl x \<Rightarrow> throw x s
          | Inr ob' \<Rightarrow>
              (let s1 = heap_store a ob' s in
               if \<not> had then bnd (trigger rec (TObj a) k TAdd) (\<lambda>r. ret (VBool True)) s1
               else if \<not> strict_eq v old \<and> (strict_eq v v \<or> strict_eq old old)
               then bnd (trigger rec (TObj a) k TSet) (\<lambda>r. ret (VBool True)) s1
               else ret (VBool True) s1)))"

section \<open>ref and computed\<close>

definition ref :: "val \<Rightarrow> state \<Rightarrow> nat \<times> state" where
  "ref v s = (length (refs s), s\<lparr>refs := refs s @ [v]\<rparr>)"

definition ref_get :: "nat \<Rightarrow> state \<Rightarrow> val \<times> state" where
  "ref_get r s = (let s1 = track (TRef r) (Name ''value'') s in (refs s1 ! r, s1))"

definition ref_store :: "nat \<Rightarrow> val \<Rightarrow> state \<Rightarrow> state" where
  "ref_store r v s = s\<lparr>refs := (refs s)[r := v]\<rparr>"

definition ref_set :: "recT \<Rightarrow> nat \<Rightarrow> val \<Rightarrow> val M" where
  "ref_set rec r newValue = (\<lambda>s.
     if \<not> strict_eq newValue (refs s ! r)
     then trigger rec (TRef r) (Name ''value'') TSet (ref_store r newValue s)
     else ret VUndefined s)"

definition new_computed :: "nat \<Rightarrow> (val \<Rightarrow> prog) option \<Rightarrow> state \<Rightarrow> state" where
  "new_computed e st s =
     s\<lparr>computeds := computeds s @ [\<lparr>c_effect = e, setter = st, c_value = VUndefined, dirty = True\<rparr>]\<rparr>"

definition computed :: "recT \<Rightarrow> prog \<Rightarrow> (val \<Rightarrow> prog) option \<Rightarrow> nat M" where
  "computed rec getter st = (\<lambda>s.
     let c = length (computeds s) in
     bnd (effect rec getter True True (ComputedSched c) None)
       (\<lambda>e. bnd (upd (new_computed e st)) (\<lambda>u. ret c)) s)"

definition computed_get :: "recT \<Rightarrow> nat \<Rightarrow> val M" where
  "computed_get rec c = (\<lambda>s.
     bnd (if dirty (computeds s ! c)
          then bnd (effectFn rec (c_effect (computeds s ! c)))
                 (\<lambda>v. upd (\<lambda>s1. set_dirty c False (set_c_value c v s1)))
          else ret ())
       (\<lambda>u s1. let s2 = track (TComputed c) (Name ''value'') s1
               in ret (c_value (computeds s2 ! c)) s2) s)"

definition computed_set :: "recT \<Rightarrow> nat \<Rightarrow> val \<Rightarrow> val M" where
  "computed_set rec c newValue = (\<lambda>s.
     case setter (computeds s ! c) of
       None \<Rightarrow> ret VUndefined (emit EWarn s)
     | Some f \<Rightarrow> bnd (rec (TProg (f newValue))) (\<lambda>r. ret VUndefined) s)"

section \<open>watch and batch\<close>

definition source_getter :: "prog source \<Rightarrow> prog" where
  "source_getter src = (case src of SrcFn p \<Rightarrow> p | SrcRef r \<Rightarrow> RefGet r Ret
     | SrcComputed c \<Rightarrow> ComputedGet c Ret)"

definition new_watcher :: "nat \<Rightarrow> (nat \<Rightarrow> val \<Rightarrow> val \<Rightarrow> prog) \<Rightarrow> wopts \<Rightarrow> state \<Rightarrow> state" where
  "new_watcher e cb opts s =
     s\<lparr>watchers := watchers s @ [\<lparr>w_effect = e, callback = cb, w_options = opts,
          oldValue = VUndefined, w_cleanup = None\<rparr>]\<rparr>"

definition watch :: "recT \<Rightarrow> prog source \<Rightarrow> (nat \<Rightarrow> val \<Rightarrow> val \<Rightarrow> prog) \<Rightarrow> wopts \<Rightarrow> nat M" where
  "watch rec src cb opts = (\<lambda>s.
     let w = length (watchers s) in
     bnd (effect rec (source_getter src) True False (WatchSched w) None)
       (\<lambda>e. bnd (upd (new_watcher e cb opts))
          (\<lambda>u. if immediate opts then bnd (job rec w) (\<lambda>r. ret w)
                else bnd (effectFn rec e)
                       (\<lambda>v. bnd (upd (set_oldValue w v)) (\<lambda>u. ret w)))) s)"

text \<open>The function \<open>watch\<close> returns.\<close>

definition stop_watch :: "recT \<Rightarrow> nat \<Rightarrow> val M" where
  "stop_watch rec w = (\<lambda>s.
     bnd (stop rec (w_effect (watchers s ! w)))
       (\<lambda>r s1. case w_cleanup (watchers s1 ! w) of
                  None \<Rightarrow> ret VUndefined s1
                | Some c \<Rightarrow> rec (TProg c) s1) s)"

fun run_queue :: "recT \<Rightarrow> nat list \<Rightarrow> unit M" where
  "run_queue rec [] = ret ()"
| "run_queue rec (e # es) = bnd (effectFn rec e) (\<lambda>r. run_queue rec es)"

definition set_batching :: "bool \<Rightarrow> state \<Rightarrow> state" where
  "set_batching b s = s\<lparr>isBatching := b\<rparr>"

definition clear_queue :: "state \<Rightarrow> state" where
  "clear_queue s = s\<lparr>batchQueue := []\<rparr>"

definition batch :: "recT \<Rightarrow> prog \<Rightarrow> val M" where
  "batch rec f = (\<lambda>s.
     try_finally (rec (TProg f))
       (bnd (upd (set_batching False))
          (\<lambda>u s1. bnd (run_queue rec (batchQueue s1)) (\<lambda>u. upd clear_queue) s1))
       (set_batching True s))"

section \<open>Running caller code\<close>

definition new_object :: "jsobj \<Rightarrow> state \<Rightarrow> state" where
  "new_object ob s = s\<lparr>heap := heap s @ [ob]\<rparr>"

text \<open>\<open>o[k]\<close> in caller code: through the handler for a proxy, plain for a raw object.\<close>

definition get_prop :: "val \<Rightarrow> key \<Rightarrow> val M" where
  "get_prop v k = (\<lambda>s.
     case v of
       VProxy p \<Rightarrow>
         (if p < length (proxies s)
          then (case handler_get (proxies s ! p) k s of (r, s1) \<Rightarrow> ret r s1)
          else throw TypeError s)
     | VObj a \<Rightarrow>
         (if a < length (heap s) then ret (raw_get (heap s ! a) k) s else throw TypeError s)
     | VUndefined \<Rightarrow> throw TypeError s
     | VNull \<Rightarrow> throw TypeError s
     | _ \<Rightarrow> ret VUndefined s)"

text \<open>\<open>o[k] = x\<close> in caller code (strict mode: assigning to a primitive throws).\<close>

definition set_prop :: "recT \<Rightarrow> val \<Rightarrow> key \<Rightarrow> val \<Rightarrow> val M" where
  "set_prop rec v k x = (\<lambda>s.
     case v of
       VProxy p \<Rightarrow>
         (if p < length (proxies s) then handler_set rec (proxies s ! p) k x s
          else throw TypeError s)
     | VObj a \<Rightarrow>
         (if a < length (heap s) then
            (case raw_set (heap s ! a) k x of
               Inl ex \<Rightarrow> throw ex s
             | Inr ob' \<Rightarrow> ret (VBool True) (heap_store a ob' s))
          else throw TypeError s)
     | _ \<Rightarrow> throw TypeError s)"

definition user_sched :: "(nat \<Rightarrow> prog) option \<Rightarrow> sched" where
  "user_sched f = (case f of None \<Rightarrow> NoSched | Some g \<Rightarrow> UserSched g)"

definition run_prog :: "recT \<Rightarrow> prog \<Rightarrow> val M" where
  "run_prog rec p =
     (case p of
        Ret v \<Rightarrow> ret v
      | Throw v \<Rightarrow> throw (Exn v)
      | Mark n k \<Rightarrow> bnd (upd (emit (EMark n))) (\<lambda>u. rec (TProg k))
      | NewObject ps k \<Rightarrow> (\<lambda>s.
          rec (TProg (k (VObj (length (heap s)))))
            (new_object \<lparr>isArray = False, elems = [],
               props = fold (\<lambda>kv. AList.update (fst kv) (snd kv)) ps []\<rparr> s))
      | NewArray vs k \<Rightarrow> (\<lambda>s.
          rec (TProg (k (VObj (length (heap s)))))
            (new_object \<lparr>isArray = True, elems = map Some vs, props = []\<rparr> s))
      | GetProp v key k \<Rightarrow> bnd (get_prop v key) (\<lambda>r. rec (TProg (k r)))
      | SetProp v key x k \<Rightarrow> bnd (set_prop rec v key x) (\<lambda>r. rec (TProg k))
      | CallReactive v k \<Rightarrow> (\<lambda>s. case reactive v s of (r, s1) \<Rightarrow> rec (TProg (k r)) s1)
      | CallRef v k \<Rightarrow> (\<lambda>s. case ref v s of (r, s1) \<Rightarrow> rec (TProg (k r)) s1)
      | RefGet r k \<Rightarrow> (\<lambda>s.
          if r < length (refs s) then (case ref_get r s of (v, s1) \<Rightarrow> rec (TProg (k v)) s1)
          else throw TypeError s)
      | RefSet r v k \<Rightarrow> (\<lambda>s.
          if r < length (refs s) then bnd (ref_set rec r v) (\<lambda>u. rec (TProg k)) s
          else throw TypeError s)
      | CallComputed g st k \<Rightarrow> bnd (computed rec g st) (\<lambda>c. rec (TProg (k c)))
      | ComputedGet c k \<Rightarrow> (\<lambda>s.
          if c < length (computeds s) then bnd (computed_get rec c) (\<lambda>v. rec (TProg (k v))) s
          else throw TypeError s)
      | ComputedSet c v k \<Rightarrow> (\<lambda>s.
          if c < length (computeds s) then bnd (computed_set rec c v) (\<lambda>u. rec (TProg k)) s
          else throw TypeError s)
      | CallEffect f lz cp sc os k \<Rightarrow>
          bnd (effect rec f lz cp (user_sched sc) os) (\<lambda>e. rec (TProg (k e)))
      | Invoke e k \<Rightarrow> bnd (effectFn rec e) (\<lambda>v. rec (TProg (k v)))
      | CallStop e k \<Rightarrow> bnd (stop rec e) (\<lambda>u. rec (TProg k))
      | CallWatch src cb opts k \<Rightarrow> bnd (watch rec src cb opts) (\<lambda>w. rec (TProg (k w)))
      | OnCleanup w c k \<Rightarrow> (\<lambda>s.
          if w < length (watchers s) then rec (TProg k) (set_w_cleanup w c s)
          else throw TypeError s)
      | StopWatch w k \<Rightarrow> (\<lambda>s.
          if w < length (watchers s) then bnd (stop_watch rec w) (\<lambda>u. rec (TProg k)) s
          else throw TypeError s)
      | CallBatch f k \<Rightarrow> bnd (batch rec f) (\<lambda>u. rec (TProg k))
      | CallTrack t key k \<Rightarrow> bnd (upd (track t key)) (\<lambda>u. rec (TProg k))
      | CallTrigger t key ty k \<Rightarrow> bnd (trigger rec t key ty) (\<lambda>u. rec (TProg k)))"

definition exec_body :: "recT \<Rightarrow> recT" where
  "exec_body rec tk = (case tk of TProg p \<Rightarrow> run_prog rec p | TTrigger t k ty \<Rightarrow> trigger rec t k ty)"

text \<open>
  The interpreter: every call back into caller code, and every \<open>trigger\<close> from a
  computed ref's scheduler, takes one unit of fuel; \<open>None\<close> is out of fuel.
\<close>

fun exec :: "nat \<Rightarrow> recT" where
  "exec 0 = (\<lambda>tk s. None)"
| "exec (Suc n) = exec_body (exec n)"

definition run :: "nat \<Rightarrow> prog \<Rightarrow> state \<Rightarrow> (val outcome \<times> state) option" where
  "run n p s = exec n (TProg p) s"

section \<open>Specification vocabulary\<close>

text \<open>
  The effect functions one \<open>trigger\<close> call replays, in replay order: the content of
  \<open>computedEffects\<close> followed by the content of \<open>effects\<close>. \<open>None\<close> when filling the
  sets throws.
\<close>

definition notified :: "state \<Rightarrow> target \<Rightarrow> key \<Rightarrow> ttype \<Rightarrow> nat list option" where
  "notified s t k ty =
     (case map_of (targetMap s) t of
        None \<Rightarrow> Some []
      | Some depsMap \<Rightarrow>
          (case collect s t k ty depsMap of None \<Rightarrow> None | Some (es, cs) \<Rightarrow> Some (cs @ es)))"

text \<open>The effect functions registered for (target, key), the running one left out.\<close>

definition dependents :: "state \<Rightarrow> target \<Rightarrow> key \<Rightarrow> nat set" where
  "dependents s t k = {e \<in> set (dep_of s t k). Some e \<noteq> activeEffect s}"

definition run_count :: "nat \<Rightarrow> state \<Rightarrow> nat" where
  "run_count e s = count_list (trace s) (ERun e)"

text \<open>The two local sets keep the derived effects apart from the plain ones.\<close>

definition split_ok :: "state \<Rightarrow> nat list \<times> nat list \<Rightarrow> bool" where
  "split_ok s acc = (distinct (fst acc) \<and> distinct (snd acc)
     \<and> (\<forall>e \<in> set (fst acc). \<not> opt_computed (effects s ! e))
     \<and> (\<forall>e \<in> set (snd acc). opt_computed (effects s ! e)))"

section \<open>Scenarios\<close>

text \<open>The state a scenario ends in, started from the empty module state.\<close>

definition final_state :: "nat \<Rightarrow> prog \<Rightarrow> state" where
  "final_state n p = (case run n p init of Some (r, s) \<Rightarrow> s | None \<Rightarrow> init)"



definition sc_ref_nan :: prog where
  "sc_ref_nan = CallRef VNaN (\<lambda>r. CallEffect (RefGet r Ret) False False None None
      (\<lambda>e. RefSet r VNaN (Ret VUndefined)))"


definition sc_object :: prog where
  "sc_object = NewObject [(Name ''k'', VNum 1)] (\<lambda>ob. CallReactive ob (\<lambda>c.
     CallEffect (GetProp c (Name ''k'') Ret) False False None None (\<lambda>e. Ret VUndefined)))"

definition sc_mixed :: prog where
  "sc_mixed = CallRef (VNum 1) (\<lambda>x.
     CallEffect (RefGet x Ret) False False None None (\<lambda>e0.
       CallComputed (RefGet x Ret) None (\<lambda>d. ComputedGet d Ret)))"


section \<open>Postconditions and invariants of an execution\<close>

text \<open>
  \<open>post x Q\<close>: when the computation \<open>x\<close> ends, with a value or a thrown exception, \<open>Q\<close> holds
  of its outcome and state. Running out of fuel satisfies every postcondition, so \<open>post\<close> is
  only used for what holds of the executions that end.
\<close>

definition post :: "('a outcome \<times> state) option \<Rightarrow> ('a outcome \<Rightarrow> state \<Rightarrow> bool) \<Rightarrow> bool" where
  "post x Q = (case x of None \<Rightarrow> True | Some (r, s) \<Rightarrow> Q r s)"

text \<open>
  \<open>stable I\<close>: every update of the module state that the functions above perform keeps \<open>I\<close>.
  The runner and \<open>stop\<close> are only called on effect functions that exist.
\<close>

definition stable :: "(state \<Rightarrow> bool) \<Rightarrow> bool" where
  "stable I =
     ((\<forall>s ev. I s \<longrightarrow> I (emit ev s))
    \<and> (\<forall>s t k. I s \<longrightarrow> I (track t k s))
    \<and> (\<forall>s e. I s \<longrightarrow> e < length (effects s) \<longrightarrow> I (begin_run e s))
    \<and> (\<forall>s. I s \<longrightarrow> I (end_run s))
    \<and> (\<forall>s f lz cp sc os. I s \<longrightarrow> I (new_effect f lz cp sc os s))
    \<and> (\<forall>s e. I s \<longrightarrow> e < length (effects s) \<longrightarrow> I (set_inactive e (cleanup e s)))
    \<and> (\<forall>s c b. I s \<longrightarrow> I (set_dirty c b s))
    \<and> (\<forall>s c v. I s \<longrightarrow> I (set_c_value c v s))
    \<and> (\<forall>s w v. I s \<longrightarrow> I (set_oldValue w v s))
    \<and> (\<forall>s w p. I s \<longrightarrow> I (set_w_cleanup w p s))
    \<and> (\<forall>s m. I s \<longrightarrow> I (queueMicrotask m s))
    \<and> (\<forall>s v. I s \<longrightarrow> I (snd (reactive v s)))
    \<and> (\<forall>s a ob. I s \<longrightarrow> I (heap_store a ob s))
    \<and> (\<forall>s ob. I s \<longrightarrow> I (new_object ob s))
    \<and> (\<forall>s v. I s \<longrightarrow> I (snd (ref v s)))
    \<and> (\<forall>s r v. I s \<longrightarrow> I (ref_store r v s))
    \<and> (\<forall>s e st. I s \<longrightarrow> I (new_computed e st s))
    \<and> (\<forall>s e cb opts. I s \<longrightarrow> I (new_watcher e cb opts s))
    \<and> (\<forall>s b. I s \<longrightarrow> I (set_batching b s))
    \<and> (\<forall>s. I s \<longrightarrow> I (clear_queue s)))"

text \<open>The order of results in the fuel: out of fuel is below every result.\<close>

definition flat_le :: "'a option \<Rightarrow> 'a option \<Rightarrow> bool" where
  "flat_le x y = (x = None \<or> x = y)"

section \<open>Membership of effect functions in dependency sets\<close>

text \<open>\<open>registered e s\<close>: some dependency set of \<open>targetMap\<close> has \<open>e\<close> as a member.\<close>

definition registered :: "nat \<Rightarrow> state \<Rightarrow> bool" where
  "registered e s = (\<exists>td \<in> set (targetMap s). \<exists>kd \<in> set (snd td). e \<in> set (snd kd))"

text \<open>
  The bookkeeping of \<open>track\<close> and \<open>cleanup\<close>: a \<open>Map\<close> has each key once, every member of
  a dependency set is an effect function that lists this set in its \<open>deps\<close>, and
  \<open>activeEffect\<close> is the top of \<open>effectStack\<close>.
\<close>

definition registry_ok :: "state \<Rightarrow> bool" where
  "registry_ok s =
     (distinct (map fst (targetMap s))
      \<and> (\<forall>td \<in> set (targetMap s). distinct (map fst (snd td))
            \<and> (\<forall>kd \<in> set (snd td). \<forall>e \<in> set (snd kd).
                  e < length (effects s) \<and> (fst td, fst kd) \<in> set (deps (effects s ! e))))
      \<and> (\<forall>e \<in> set (effectStack s). e < length (effects s))
      \<and> activeEffect s = (case effectStack s of [] \<Rightarrow> None | e # r \<Rightarrow> Some e))"

text \<open>\<open>detached e s\<close>: \<open>e\<close> is in no dependency set and is not running.\<close>

definition detached :: "nat \<Rightarrow> state \<Rightarrow> bool" where
  "detached e s = (\<not> registered e s \<and> e \<notin> set (effectStack s) \<and> activeEffect s \<noteq> Some e)"

text \<open>
  What a run of \<open>dep.delete(e)\<close> over the dependency sets named in \<open>K\<close> leaves of
  \<open>targetMap\<close>.
\<close>

definition strip_dep ::
  "nat \<Rightarrow> (target \<times> key) set \<Rightarrow> (target \<times> (key \<times> nat list) list) list
     \<Rightarrow> (target \<times> (key \<times> nat list) list) list" where
  "strip_dep e K tm =
     map (\<lambda>td. (fst td, map (\<lambda>kd. (fst kd,
            if (fst td, fst kd) \<in> K then removeAll e (snd kd) else snd kd)) (snd td))) tm"

definition keys_distinct :: "(target \<times> (key \<times> nat list) list) list \<Rightarrow> bool" where
  "keys_distinct tm = (distinct (map fst tm) \<and> (\<forall>td \<in> set tm. distinct (map fst (snd td))))"

text \<open>
  \<open>quiet_detached e c s\<close>: \<open>e\<close> has run at least \<open>c\<close> times, and if it has run exactly \<open>c\<close>
  times it is detached. \<open>stopped e s\<close>: \<open>e.active\<close> is \<open>false\<close>.
\<close>

definition quiet_detached :: "nat \<Rightarrow> nat \<Rightarrow> state \<Rightarrow> bool" where
  "quiet_detached e c s = (c \<le> run_count e s \<and> (run_count e s = c \<longrightarrow> detached e s))"

definition stopped :: "nat \<Rightarrow> state \<Rightarrow> bool" where
  "stopped e s = (e < length (effects s) \<and> \<not> active (effects s ! e))"

section \<open>More scenarios\<close>

text \<open>
  \<open>x = ref(1); watch(() => x.value, cb, {flush: 'sync'}); x.value = 9; mark(0); k\<close>
\<close>

definition sc_watch :: "(nat \<Rightarrow> val \<Rightarrow> val \<Rightarrow> prog) \<Rightarrow> prog \<Rightarrow> prog" where
  "sc_watch cb k = CallRef (VNum 1) (\<lambda>x.
     CallWatch (SrcFn (RefGet x Ret)) cb \<lparr>immediate = False, deep = False, flush = FlushSync\<rparr>
       (\<lambda>w. RefSet x (VNum 9) (Mark 0 k)))"

text \<open>The module state in which the callback of \<open>sc_watch\<close> is entered.\<close>

definition watch_mid :: "(nat \<Rightarrow> val \<Rightarrow> val \<Rightarrow> prog) \<Rightarrow> state" where
  "watch_mid cb =
     \<lparr>heap = [], proxies = [], reactiveMap = [], refs = [VNum 9], computeds = [],
      watchers = [\<lparr>w_effect = 0, callback = cb,
          w_options = \<lparr>immediate = False, deep = False, flush = FlushSync\<rparr>,
          oldValue = VNum 1, w_cleanup = None\<rparr>],
      effects = [\<lparr>fn = RefGet 0 Ret, deps = [(TRef 0, Name ''value'')], opt_lazy = True,
          opt_computed = False, opt_scheduler = WatchSched 0, opt_onStop = None,
          active = True\<rparr>],
      activeEffect = None, effectStack = [],
      targetMap = [(TRef 0, [(Name ''value'', [0])])],
      isBatching = False, batchQueue = [], microtasks = [],
      trace = [ERun 0, ETrack (TRef 0) (Name ''value''),
               ETrigger (TRef 0) (Name ''value'') TSet, ESched 0, ERun 0,
               ETrack (TRef 0) (Name ''value''), ECallback 0 (VNum 9) (VNum 1)]\<rparr>"

text \<open>\<open>c = reactive({k: 1}); e = effect(() => c.k, {onStop: () => mark(7)})\<close>\<close>

definition sc_stoppable :: prog where
  "sc_stoppable = NewObject [(Name ''k'', VNum 1)] (\<lambda>ob. CallReactive ob (\<lambda>c.
     CallEffect (GetProp c (Name ''k'') Ret) False False None (Some (Mark 7 (Ret VUndefined)))
       (\<lambda>e. Ret VUndefined)))"

text \<open>
  \<open>c = reactive({k: 1}); e1 = effect(() => { if (c.k === 2) stop(e2) });
   e2 = effect(() => c.k, {onStop: () => {}}); c.k = 2; mark(0); c.k = 3\<close>
\<close>

definition sc_stop_sibling :: prog where
  "sc_stop_sibling = NewObject [(Name ''k'', VNum 1)] (\<lambda>ob. CallReactive ob (\<lambda>c.
     CallEffect (GetProp c (Name ''k'')
         (\<lambda>v. if v = VNum 2 then CallStop 1 (Ret VUndefined) else Ret VUndefined))
       False False None None (\<lambda>e1.
     CallEffect (GetProp c (Name ''k'') Ret) False False None (Some (Ret VUndefined)) (\<lambda>e2.
       SetProp c (Name ''k'') (VNum 2) (Mark 0
         (SetProp c (Name ''k'') (VNum 3) (Ret VUndefined)))))))"

text \<open>The state \<open>stop(e)\<close> ends in.\<close>

definition after_stop :: "nat \<Rightarrow> nat \<Rightarrow> state \<Rightarrow> state" where
  "after_stop n e s = (case stop (exec n) e s of Some (r, s1) \<Rightarrow> s1 | None \<Rightarrow> s)"

text \<open>
  \<open>x = ref(1); c = computed(() => { const v = x.value; if (v === 0) throw 'bad'; return v });
   c.value; x.value = 0\<close>
\<close>

definition sc_computed_guard :: prog where
  "sc_computed_guard = CallRef (VNum 1) (\<lambda>x.
     CallComputed (RefGet x (\<lambda>v. if v = VNum 0 then Throw (VStr ''bad'') else Ret v)) None
       (\<lambda>c. ComputedGet c (\<lambda>v. RefSet x (VNum 0) (Ret VUndefined))))"

text \<open>\<open>x = ref(1); c = computed(() => x.value); e = effect(() => x.value, {lazy: true})\<close>\<close>

definition sc_computed_read :: prog where
  "sc_computed_read = CallRef (VNum 1) (\<lambda>x.
     CallComputed (RefGet x Ret) None (\<lambda>c.
       CallEffect (RefGet x Ret) True False None None (\<lambda>e. Ret VUndefined)))"

text \<open>The state a read of \<open>c.value\<close> ends in.\<close>

definition after_read :: "nat \<Rightarrow> nat \<Rightarrow> state \<Rightarrow> state" where
  "after_read n c s = (case computed_get (exec n) c s of Some (r, s1) \<Rightarrow> s1 | None \<Rightarrow> s)"

section \<open>What a trigger has run, read off the trace\<close>

text \<open>
  The first event a replay of the effect function \<open>e\<close> logs: \<open>ERun e\<close> when \<open>trigger\<close> calls
  \<open>e\<close> itself, \<open>ESched e\<close> when it calls the scheduler of \<open>e\<close>.
\<close>

definition starts :: "state \<Rightarrow> nat \<Rightarrow> event" where
  "starts s e = (case opt_scheduler (effects s ! e) of NoSched \<Rightarrow> ERun e | _ \<Rightarrow> ESched e)"

text \<open>
  \<open>replays s l tr\<close>: the trace \<open>tr\<close> is made of one segment for each member of \<open>l\<close>, in the
  order of \<open>l\<close>, and the segment of \<open>e\<close> begins with the first event of a replay of \<open>e\<close>.
  The rest of a segment is what that replay went on to do, nested triggers included.
\<close>

definition replays :: "state \<Rightarrow> nat list \<Rightarrow> event list \<Rightarrow> bool" where
  "replays s l tr =
     (\<exists>segs. length segs = length l \<and> tr = concat segs
        \<and> (\<forall>i < length l. \<exists>xs. segs ! i = starts s (l ! i) # xs))"

text \<open>The options of an effect function are set when it is created, and never again.\<close>

definition same_options :: "state \<Rightarrow> nat \<Rightarrow> state \<Rightarrow> bool" where
  "same_options s e s' =
     (e < length (effects s') \<and> opt_scheduler (effects s' ! e) = opt_scheduler (effects s ! e)
      \<and> opt_computed (effects s' ! e) = opt_computed (effects s ! e))"

text \<open>The states a write through a proxy and a \<open>trigger\<close> call end in.\<close>

definition after_set :: "nat \<Rightarrow> nat \<Rightarrow> key \<Rightarrow> val \<Rightarrow> state \<Rightarrow> state" where
  "after_set n a k v s = (case handler_set (exec n) a k v s of Some (r, s') \<Rightarrow> s' | None \<Rightarrow> s)"

definition after_trigger :: "nat \<Rightarrow> target \<Rightarrow> key \<Rightarrow> ttype \<Rightarrow> state \<Rightarrow> state" where
  "after_trigger n t k ty s =
     (case trigger (exec n) t k ty s of Some (r, s') \<Rightarrow> s' | None \<Rightarrow> s)"


text \<open>
  \<open>x = ref(1); c1 = computed(() => x.value); c2 = computed(() => x.value);
   effect(() => { x.value; const b = c1.value; const c = c2.value; mark(b); mark(c) }); k\<close>
\<close>

definition mark_of :: "val \<Rightarrow> nat" where
  "mark_of v = (case v of VNum n \<Rightarrow> nat n | _ \<Rightarrow> 0)"

definition sc_two_computed :: "prog \<Rightarrow> prog" where
  "sc_two_computed k = CallRef (VNum 1) (\<lambda>x.
     CallComputed (RefGet x Ret) None (\<lambda>c1.
       CallComputed (RefGet x Ret) None (\<lambda>c2.
         CallEffect
           (RefGet x (\<lambda>a. ComputedGet c1 (\<lambda>b. ComputedGet c2 (\<lambda>c.
              Mark (mark_of b) (Mark (mark_of c) (Ret VUndefined))))))
           False False None None (\<lambda>e. k))))"

text \<open>
  \<open>c = reactive({k: 1}); effect(() => { if (c.k === 2) throw 'boom' }); effect(() => c.k)\<close>
\<close>

definition sc_throwing_reader :: prog where
  "sc_throwing_reader = NewObject [(Name ''k'', VNum 1)] (\<lambda>ob. CallReactive ob (\<lambda>c.
     CallEffect (GetProp c (Name ''k'')
         (\<lambda>v. if v = VNum 2 then Throw (VStr ''boom'') else Ret VUndefined))
       False False None None (\<lambda>e0.
       CallEffect (GetProp c (Name ''k'') Ret) False False None None (\<lambda>e1. Ret VUndefined))))"

section \<open>Basic facts\<close>

lemma trace_emit [simp]: "trace (emit ev s) = trace s @ [ev]"
  by (simp add: emit_def)

lemma emit_fields [simp]:
  "heap (emit ev s) = heap s" "proxies (emit ev s) = proxies s"
  "reactiveMap (emit ev s) = reactiveMap s" "refs (emit ev s) = refs s"
  "computeds (emit ev s) = computeds s" "watchers (emit ev s) = watchers s"
  "effects (emit ev s) = effects s" "activeEffect (emit ev s) = activeEffect s"
  "effectStack (emit ev s) = effectStack s" "targetMap (emit ev s) = targetMap s"
  "isBatching (emit ev s) = isBatching s" "batchQueue (emit ev s) = batchQueue s"
  "microtasks (emit ev s) = microtasks s"
  by (simp_all add: emit_def)

lemma heap_store_fields [simp]:
  "heap (heap_store a ob s) = (heap s)[a := ob]" "proxies (heap_store a ob s) = proxies s"
  "reactiveMap (heap_store a ob s) = reactiveMap s" "refs (heap_store a ob s) = refs s"
  "computeds (heap_store a ob s) = computeds s" "watchers (heap_store a ob s) = watchers s"
  "effects (heap_store a ob s) = effects s" "activeEffect (heap_store a ob s) = activeEffect s"
  "effectStack (heap_store a ob s) = effectStack s" "targetMap (heap_store a ob s) = targetMap s"
  "isBatching (heap_store a ob s) = isBatching s" "batchQueue (heap_store a ob s) = batchQueue s"
  "microtasks (heap_store a ob s) = microtasks s" "trace (heap_store a ob s) = trace s"
  by (simp_all add: heap_store_def)

lemma dep_of_emit [simp]: "dep_of (emit ev s) t k = dep_of s t k"
  by (simp add: dep_of_def)

lemma dep_of_heap_store [simp]: "dep_of (heap_store a ob s) t k = dep_of s t k"
  by (simp add: dep_of_def)

lemma set_set_add [simp]: "set (set_add x xs) = insert x (set xs)"
  by (auto simp: set_add_def)

lemma distinct_set_add [simp]: "distinct xs \<Longrightarrow> distinct (set_add x xs)"
  by (simp add: set_add_def)

subsection \<open>What \<open>trigger\<close> collects\<close>

lemma addEffects_Nil [simp]: "addEffects s [] acc = acc"
  by (simp add: addEffects_def)

lemma addEffects_Cons:
  "addEffects s (e # dep) (es, cs) =
     addEffects s dep
       (if Some e \<noteq> activeEffect s then
          (if opt_computed (effects s ! e) then (es, set_add e cs) else (set_add e es, cs))
        else (es, cs))"
  by (simp add: addEffects_def)

lemma addEffects_sets:
  "addEffects s dep (es, cs) = (es', cs') \<Longrightarrow>
     set es' = set es \<union> {e \<in> set dep. Some e \<noteq> activeEffect s \<and> \<not> opt_computed (effects s ! e)}
   \<and> set cs' = set cs \<union> {e \<in> set dep. Some e \<noteq> activeEffect s \<and> opt_computed (effects s ! e)}"
proof (induction dep arbitrary: es cs)
  case Nil
  then show ?case by simp
next
  case (Cons e dep)
  show ?case
  proof (cases "Some e \<noteq> activeEffect s")
    case False
    with Cons.prems have "addEffects s dep (es, cs) = (es', cs')"
      by (simp add: addEffects_Cons)
    from Cons.IH[OF this] False show ?thesis by auto
  next
    case True
    show ?thesis
    proof (cases "opt_computed (effects s ! e)")
      case c: True
      with True Cons.prems have "addEffects s dep (es, set_add e cs) = (es', cs')"
        by (simp add: addEffects_Cons)
      from Cons.IH[OF this] True c show ?thesis by auto
    next
      case c: False
      with True Cons.prems have "addEffects s dep (set_add e es, cs) = (es', cs')"
        by (simp add: addEffects_Cons)
      from Cons.IH[OF this] True c show ?thesis by auto
    qed
  qed
qed

lemma addEffects_distinct:
  "addEffects s dep (es, cs) = (es', cs') \<Longrightarrow> distinct es \<Longrightarrow> distinct cs
   \<Longrightarrow> distinct es' \<and> distinct cs'"
proof (induction dep arbitrary: es cs)
  case Nil
  then show ?case by simp
next
  case (Cons e dep)
  then show ?case
    by (cases "Some e \<noteq> activeEffect s"; cases "opt_computed (effects s ! e)")
       (simp_all add: addEffects_Cons)
qed

lemma addEffects_split_ok: "split_ok s acc \<Longrightarrow> split_ok s (addEffects s dep acc)"
proof -
  obtain es cs where acc: "acc = (es, cs)" by (cases acc)
  obtain es' cs' where r: "addEffects s dep (es, cs) = (es', cs')"
    by (cases "addEffects s dep (es, cs)")
  assume "split_ok s acc"
  with acc r addEffects_sets[OF r] addEffects_distinct[OF r] show ?thesis
    by (auto simp: split_ok_def)
qed

lemma addEffects_mono:
  "set (fst acc) \<subseteq> set (fst (addEffects s dep acc)) \<and> set (snd acc) \<subseteq> set (snd (addEffects s dep acc))"
proof -
  obtain es cs where acc: "acc = (es, cs)" by (cases acc)
  obtain es' cs' where r: "addEffects s dep (es, cs) = (es', cs')"
    by (cases "addEffects s dep (es, cs)")
  from acc r addEffects_sets[OF r] show ?thesis by auto
qed

lemma addEffects_covers:
  "e \<in> set dep \<Longrightarrow> Some e \<noteq> activeEffect s
   \<Longrightarrow> e \<in> set (fst (addEffects s dep acc)) \<union> set (snd (addEffects s dep acc))"
proof -
  obtain es cs where acc: "acc = (es, cs)" by (cases acc)
  obtain es' cs' where r: "addEffects s dep (es, cs) = (es', cs')"
    by (cases "addEffects s dep (es, cs)")
  assume "e \<in> set dep" "Some e \<noteq> activeEffect s"
  with acc r addEffects_sets[OF r] show ?thesis by auto
qed

lemma length_loop_split_ok:
  "length_loop s n dm acc = Some acc' \<Longrightarrow> split_ok s acc \<Longrightarrow> split_ok s acc'"
  by (induction s n dm acc rule: length_loop.induct)
     (auto split: option.splits if_splits intro: addEffects_split_ok)

lemma length_loop_mono:
  "length_loop s n dm acc = Some acc'
   \<Longrightarrow> set (fst acc) \<subseteq> set (fst acc') \<and> set (snd acc) \<subseteq> set (snd acc')"
proof (induction s n dm acc rule: length_loop.induct)
  case (1 s n acc)
  then show ?case by simp
next
  case (2 s n kd dm acc)
  then obtain b where b: "key_ge (fst kd) n = Some b"
    and r: "length_loop s n dm (if b then addEffects s (snd kd) acc else acc) = Some acc'"
    by (auto split: option.splits)
  from "2.IH"[OF b r] addEffects_mono[of acc s "snd kd"] show ?case
    by (cases b) auto
qed

lemma length_loop_covers:
  "length_loop s n dm acc = Some acc' \<Longrightarrow> (k, d) \<in> set dm \<Longrightarrow> key_ge k n = Some True
   \<Longrightarrow> e \<in> set d \<Longrightarrow> Some e \<noteq> activeEffect s \<Longrightarrow> e \<in> set (fst acc') \<union> set (snd acc')"
proof (induction s n dm acc rule: length_loop.induct)
  case (1 s n acc)
  then show ?case by simp
next
  case (2 s n kd dm acc)
  then obtain b where b: "key_ge (fst kd) n = Some b"
    and r: "length_loop s n dm (if b then addEffects s (snd kd) acc else acc) = Some acc'"
    by (auto split: option.splits)
  show ?case
  proof (cases "kd = (k, d)")
    case True
    with b "2.prems" have bt: "b" by simp
    from True "2.prems" addEffects_covers[of e d s acc]
    have "e \<in> set (fst (addEffects s (snd kd) acc)) \<union> set (snd (addEffects s (snd kd) acc))"
      by simp
    with length_loop_mono[OF r] bt show ?thesis by auto
  next
    case False
    with "2.prems" have "(k, d) \<in> set dm" by simp
    from "2.IH"[OF b r this "2.prems"(3,4,5)] show ?thesis .
  qed
qed


lemma target_isArray_emit [simp]: "target_isArray (emit ev s) t = target_isArray s t"
  by (simp add: target_isArray_def split: target.splits)

lemma target_length_emit [simp]: "target_length (emit ev s) t = target_length s t"
  by (simp add: target_length_def split: target.splits)

lemma collect_emit [simp]: "collect (emit ev s) t k ty dm = collect s t k ty dm"
proof -
  have a: "\<And>dep acc. addEffects (emit ev s) dep acc = addEffects s dep acc"
    by (simp add: addEffects_def cong: if_cong)
  have l: "\<And>n acc. length_loop (emit ev s) n dm acc = length_loop s n dm acc"
    by (induction dm) (simp_all add: a split: option.splits)
  show ?thesis
    by (simp add: collect_def a l Let_def cong: if_cong)
qed

lemma notified_emit [simp]: "notified (emit ev s) t k ty = notified s t k ty"
  by (simp add: notified_def cong: option.case_cong)

lemma collect_split_ok: "collect s t k ty dm = Some acc \<Longrightarrow> split_ok s acc"
proof -
  have "split_ok s ([], [])" by (simp add: split_ok_def)
  then show "collect s t k ty dm = Some acc \<Longrightarrow> split_ok s acc"
    by (auto simp: collect_def Let_def split: if_splits
             intro: addEffects_split_ok length_loop_split_ok)
qed

lemma bnd_ret_left [simp]: "bnd (ret v) f = f v"
  by (simp add: bnd_def ret_def)

lemma bnd_assoc: "bnd (bnd m f) g = bnd m (\<lambda>v. bnd (f v) g)"
  by (auto simp: bnd_def fun_eq_iff split: option.splits outcome.splits)

lemma replay_all_append:
  "replay_all rec (xs @ ys) = bnd (replay_all rec xs) (\<lambda>r. replay_all rec ys)"
  by (induction xs) (simp_all add: bnd_assoc)

text \<open>\<open>trigger\<close> is: replay the notified effect functions, in their order.\<close>

lemma trigger_notified:
  "trigger rec t k ty s =
     (case notified s t k ty of
        None \<Rightarrow> throw TypeError (emit (ETrigger t k ty) s)
      | Some l \<Rightarrow> replay_all rec l (emit (ETrigger t k ty) s))"
  by (simp add: trigger_def notified_def replay_all_append split: option.splits prod.splits)

section \<open>What a trigger notifies; reactive\<close>

lemma notified_split:
  "notified s t k ty = Some l \<Longrightarrow>
     \<exists>cs es. l = cs @ es \<and> distinct l
       \<and> (\<forall>e \<in> set cs. opt_computed (effects s ! e))
       \<and> (\<forall>e \<in> set es. \<not> opt_computed (effects s ! e))"
proof (cases "map_of (targetMap s) t")
  case None
  assume "notified s t k ty = Some l"
  with None show ?thesis by (simp add: notified_def)
next
  case (Some dm)
  assume n: "notified s t k ty = Some l"
  with Some obtain es cs where c: "collect s t k ty dm = Some (es, cs)" and l: "l = cs @ es"
    by (auto simp: notified_def split: option.splits)
  from collect_split_ok[OF c] have "distinct es" "distinct cs"
    "\<forall>e \<in> set es. \<not> opt_computed (effects s ! e)" "\<forall>e \<in> set cs. opt_computed (effects s ! e)"
    by (simp_all add: split_ok_def)
  with l show ?thesis by (intro exI[of _ cs] exI[of _ es]) auto
qed


lemma dependents_heap_store [simp]: "dependents (heap_store a ob s) t k = dependents s t k"
  by (simp add: dependents_def)

lemma str_to_num_length [simp]: "str_to_num ''length'' = SNaN"
  by code_simp




lemma track_fields [simp]:
  "heap (track t k s) = heap s" "proxies (track t k s) = proxies s"
  "reactiveMap (track t k s) = reactiveMap s" "refs (track t k s) = refs s"
  "computeds (track t k s) = computeds s" "watchers (track t k s) = watchers s"
  "activeEffect (track t k s) = activeEffect s"
  "effectStack (track t k s) = effectStack s"
  "isBatching (track t k s) = isBatching s" "batchQueue (track t k s) = batchQueue s"
  "microtasks (track t k s) = microtasks s"
  "trace (track t k s) = trace s @ [ETrack t k]"
  "length (effects (track t k s)) = length (effects s)"
  by (simp_all add: track_def Let_def split: option.splits)






lemma notified_covers_key:
  assumes "notified s t k ty = Some l"
  shows "dependents s t k \<subseteq> set l"
proof (cases "map_of (targetMap s) t")
  case None
  then show ?thesis by (simp add: dependents_def dep_of_def)
next
  case (Some dm)
  with assms obtain es cs where c: "collect s t k ty dm = Some (es, cs)" and l: "l = cs @ es"
    by (auto simp: notified_def split: option.splits)
  let ?a1 = "addEffects s (depsMap_get dm k) ([], [])"
  let ?a2 = "if ty = TAdd \<and> target_isArray s t
             then addEffects s (depsMap_get dm (Name ''length'')) ?a1 else ?a1"
  have m12: "set (fst ?a1) \<subseteq> set (fst ?a2) \<and> set (snd ?a1) \<subseteq> set (snd ?a2)"
    using addEffects_mono[of ?a1 s "depsMap_get dm (Name ''length'')"] by auto
  have m2: "set (fst ?a2) \<subseteq> set es \<and> set (snd ?a2) \<subseteq> set cs"
    using c length_loop_mono[of s "target_length s t" dm ?a2 "(es, cs)"]
    by (auto simp: collect_def Let_def split: if_splits)
  show ?thesis
  proof
    fix e assume "e \<in> dependents s t k"
    with Some have "e \<in> set (depsMap_get dm k)" "Some e \<noteq> activeEffect s"
      by (auto simp: dependents_def dep_of_def)
    from addEffects_covers[OF this, of "([], [])"] m12 m2 l show "e \<in> set l" by auto
  qed
qed


lemma notified_length_covers_index:
  assumes "notified s t (Name ''length'') ty = Some l" "target_isArray s t"
    "target_length s t \<le> i"
  shows "dependents s t (Idx i) \<subseteq> set l"
proof (cases "map_of (targetMap s) t")
  case None
  then show ?thesis by (simp add: dependents_def dep_of_def)
next
  case (Some dm)
  with assms obtain es cs where c: "collect s t (Name ''length'') ty dm = Some (es, cs)"
    and l: "l = cs @ es"
    by (auto simp: notified_def split: option.splits)
  from c assms(2) obtain acc where ll: "length_loop s (target_length s t) dm acc = Some (es, cs)"
    by (auto simp: collect_def Let_def)
  show ?thesis
  proof
    fix e assume "e \<in> dependents s t (Idx i)"
    with Some have e: "e \<in> set (depsMap_get dm (Idx i))" "Some e \<noteq> activeEffect s"
      by (auto simp: dependents_def dep_of_def)
    then obtain d where d: "map_of dm (Idx i) = Some d" "e \<in> set d"
      by (cases "map_of dm (Idx i)") (auto simp: depsMap_get_def)
    then have "(Idx i, d) \<in> set dm" by (simp add: map_of_SomeD)
    from length_loop_covers[OF ll this _ d(2) e(2)] assms(3) l show "e \<in> set l"
      by (auto simp: key_ge_def)
  qed
qed



section \<open>The postcondition calculus\<close>

lemma post_None [simp]: "post None Q"
  by (simp add: post_def)

lemma post_Some [simp]: "post (Some (r, s)) Q = Q r s"
  by (simp add: post_def)

lemma post_ret [simp]: "post (ret v s) Q = Q (Normal v) s"
  by (simp add: ret_def)

lemma post_throw [simp]: "post (throw x s) Q = Q (Thrown x) s"
  by (simp add: throw_def)

lemma post_upd [simp]: "post (upd g s) Q = Q (Normal ()) (g s)"
  by (simp add: upd_def)

lemma post_bnd [simp]:
  "post (bnd m f s) Q =
     post (m s) (\<lambda>r s1. case r of Normal v \<Rightarrow> post (f v s1) Q | Thrown x \<Rightarrow> Q (Thrown x) s1)"
  by (simp add: post_def bnd_def split: option.splits outcome.splits)

lemma post_try_finally [simp]:
  "post (try_finally m fin s) Q =
     post (m s) (\<lambda>out s1. post (fin s1)
        (\<lambda>r2 s2. case r2 of Normal u \<Rightarrow> Q out s2 | Thrown x \<Rightarrow> Q (Thrown x) s2))"
  by (simp add: post_def try_finally_def split: option.splits outcome.splits)

lemma post_mono: "post x Q \<Longrightarrow> (\<And>r s. Q r s \<Longrightarrow> Q' r s) \<Longrightarrow> post x Q'"
  by (cases x) (auto simp: post_def)

lemma postD: "post x Q \<Longrightarrow> x = Some (r, s) \<Longrightarrow> Q r s"
  by simp

lemma stable_emit: "stable I \<Longrightarrow> I s \<Longrightarrow> I (emit ev s)" by (simp add: stable_def)

lemma stable_track: "stable I \<Longrightarrow> I s \<Longrightarrow> I (track t k s)" by (simp add: stable_def)

lemma stable_begin_run: "stable I \<Longrightarrow> I s \<Longrightarrow> e < length (effects s) \<Longrightarrow> I (begin_run e s)"
  by (simp add: stable_def)

lemma stable_end_run: "stable I \<Longrightarrow> I s \<Longrightarrow> I (end_run s)" by (simp add: stable_def)

lemma stable_new_effect: "stable I \<Longrightarrow> I s \<Longrightarrow> I (new_effect f lz cp sc os s)"
  by (simp add: stable_def)

lemma stable_stop: "stable I \<Longrightarrow> I s \<Longrightarrow> e < length (effects s) \<Longrightarrow> I (set_inactive e (cleanup e s))"
  by (simp add: stable_def)

lemma stable_set_dirty: "stable I \<Longrightarrow> I s \<Longrightarrow> I (set_dirty c b s)" by (simp add: stable_def)

lemma stable_set_c_value: "stable I \<Longrightarrow> I s \<Longrightarrow> I (set_c_value c v s)" by (simp add: stable_def)

lemma stable_set_oldValue: "stable I \<Longrightarrow> I s \<Longrightarrow> I (set_oldValue w v s)" by (simp add: stable_def)

lemma stable_set_w_cleanup: "stable I \<Longrightarrow> I s \<Longrightarrow> I (set_w_cleanup w p s)" by (simp add: stable_def)

lemma stable_queueMicrotask: "stable I \<Longrightarrow> I s \<Longrightarrow> I (queueMicrotask m s)" by (simp add: stable_def)

lemma stable_reactive: "stable I \<Longrightarrow> I s \<Longrightarrow> I (snd (reactive v s))" by (simp add: stable_def)

lemma stable_heap_store: "stable I \<Longrightarrow> I s \<Longrightarrow> I (heap_store a ob s)" by (simp add: stable_def)

lemma stable_new_object: "stable I \<Longrightarrow> I s \<Longrightarrow> I (new_object ob s)" by (simp add: stable_def)

lemma stable_ref: "stable I \<Longrightarrow> I s \<Longrightarrow> I (snd (ref v s))" by (simp add: stable_def)

lemma stable_ref_store: "stable I \<Longrightarrow> I s \<Longrightarrow> I (ref_store r v s)" by (simp add: stable_def)

lemma stable_new_computed: "stable I \<Longrightarrow> I s \<Longrightarrow> I (new_computed e st s)" by (simp add: stable_def)

lemma stable_new_watcher: "stable I \<Longrightarrow> I s \<Longrightarrow> I (new_watcher e cb opts s)" by (simp add: stable_def)

lemma stable_set_batching: "stable I \<Longrightarrow> I s \<Longrightarrow> I (set_batching b s)" by (simp add: stable_def)

lemma stable_clear_queue: "stable I \<Longrightarrow> I s \<Longrightarrow> I (clear_queue s)" by (simp add: stable_def)

lemmas stable_rules = stable_emit stable_track stable_begin_run stable_end_run stable_new_effect
  stable_stop stable_set_dirty stable_set_c_value stable_set_oldValue stable_set_w_cleanup
  stable_queueMicrotask stable_reactive stable_heap_store stable_new_object stable_ref
  stable_ref_store stable_new_computed stable_new_watcher stable_set_batching stable_clear_queue

lemma post_effectFn:
  assumes st: "stable I"
    and rc: "\<And>tk s Q. I s \<Longrightarrow> (\<And>r s'. I s' \<Longrightarrow> Q r s') \<Longrightarrow> post (rec tk s) Q"
    and I: "I s" and Q: "\<And>r s'. I s' \<Longrightarrow> Q r s'"
  shows "post (effectFn rec e s) Q"
  unfolding effectFn_def using I
  by (auto intro!: rc Q stable_rules[OF st] split: outcome.splits)

lemma post_effect:
  assumes st: "stable I"
    and rc: "\<And>tk s Q. I s \<Longrightarrow> (\<And>r s'. I s' \<Longrightarrow> Q r s') \<Longrightarrow> post (rec tk s) Q"
    and I: "I s" and Q: "\<And>r s'. I s' \<Longrightarrow> Q r s'"
  shows "post (effect rec f lz cp sc os s) Q"
  unfolding effect_def using I
  by (auto simp: Let_def intro!: post_effectFn[OF st rc] Q stable_rules[OF st] split: outcome.splits)

lemma post_stop:
  assumes st: "stable I"
    and rc: "\<And>tk s Q. I s \<Longrightarrow> (\<And>r s'. I s' \<Longrightarrow> Q r s') \<Longrightarrow> post (rec tk s) Q"
    and I: "I s" and Q: "\<And>r s'. I s' \<Longrightarrow> Q r s'"
  shows "post (stop rec e s) Q"
  unfolding stop_def using I
  by (auto simp: Let_def intro!: rc Q stable_rules[OF st] split: outcome.splits option.splits)

lemma post_job:
  assumes st: "stable I"
    and rc: "\<And>tk s Q. I s \<Longrightarrow> (\<And>r s'. I s' \<Longrightarrow> Q r s') \<Longrightarrow> post (rec tk s) Q"
    and I: "I s" and Q: "\<And>r s'. I s' \<Longrightarrow> Q r s'"
  shows "post (job rec w s) Q"
  unfolding job_def using I
  by (auto simp: Let_def intro!: rc post_effectFn[OF st rc] Q stable_rules[OF st]
      split: outcome.splits option.splits)

lemma post_run_scheduler:
  assumes st: "stable I"
    and rc: "\<And>tk s Q. I s \<Longrightarrow> (\<And>r s'. I s' \<Longrightarrow> Q r s') \<Longrightarrow> post (rec tk s) Q"
    and I: "I s" and Q: "\<And>r s'. I s' \<Longrightarrow> Q r s'"
  shows "post (run_scheduler rec sc e s) Q"
  unfolding run_scheduler_def using I
  by (auto simp: Let_def intro!: rc post_job[OF st rc] Q stable_rules[OF st]
      split: outcome.splits option.splits sched.splits flush.splits)

lemma post_replay:
  assumes st: "stable I"
    and rc: "\<And>tk s Q. I s \<Longrightarrow> (\<And>r s'. I s' \<Longrightarrow> Q r s') \<Longrightarrow> post (rec tk s) Q"
    and I: "I s" and Q: "\<And>r s'. I s' \<Longrightarrow> Q r s'"
  shows "post (replay rec e s) Q"
  unfolding replay_def using I
  by (auto simp: Let_def intro!: post_run_scheduler[OF st rc] post_effectFn[OF st rc] Q
      stable_rules[OF st] split: outcome.splits option.splits sched.splits)

lemma post_replay_all:
  assumes st: "stable I"
    and rc: "\<And>tk s Q. I s \<Longrightarrow> (\<And>r s'. I s' \<Longrightarrow> Q r s') \<Longrightarrow> post (rec tk s) Q"
  shows "I s \<Longrightarrow> (\<And>r s'. I s' \<Longrightarrow> Q r s') \<Longrightarrow> post (replay_all rec es s) Q"
proof (induction es arbitrary: s Q)
  case Nil
  then show ?case by simp
next
  case (Cons e es)
  show ?case
    using Cons.prems
    by (auto intro!: post_replay[OF st rc] Cons.IH split: outcome.splits)
qed

lemma post_trigger:
  assumes st: "stable I"
    and rc: "\<And>tk s Q. I s \<Longrightarrow> (\<And>r s'. I s' \<Longrightarrow> Q r s') \<Longrightarrow> post (rec tk s) Q"
    and I: "I s" and Q: "\<And>r s'. I s' \<Longrightarrow> Q r s'"
  shows "post (trigger rec t k ty s) Q"
  unfolding trigger_def using I
  by (auto simp: Let_def intro!: post_replay_all[OF st rc] Q stable_rules[OF st]
      split: outcome.splits option.splits)

lemma stable_handler_get:
  assumes st: "stable I" and I: "I s"
  shows "I (snd (handler_get a k s))"
  using I by (auto simp: handler_get_def Let_def intro!: stable_rules[OF st])

lemma stable_ref_get:
  assumes st: "stable I" and I: "I s"
  shows "I (snd (ref_get r s))"
  using I by (auto simp: ref_get_def Let_def intro!: stable_rules[OF st])

lemma post_handler_set:
  assumes st: "stable I"
    and rc: "\<And>tk s Q. I s \<Longrightarrow> (\<And>r s'. I s' \<Longrightarrow> Q r s') \<Longrightarrow> post (rec tk s) Q"
    and I: "I s" and Q: "\<And>r s'. I s' \<Longrightarrow> Q r s'"
  shows "post (handler_set rec a k v s) Q"
  unfolding handler_set_def using I
  by (auto simp: Let_def intro!: post_trigger[OF st rc] Q stable_rules[OF st]
      split: outcome.splits option.splits sum.splits)

lemma post_get_prop:
  assumes st: "stable I" and I: "I s" and Q: "\<And>r s'. I s' \<Longrightarrow> Q r s'"
  shows "post (get_prop v k s) Q"
  unfolding get_prop_def using I
  by (auto simp: case_prod_beta intro!: Q stable_handler_get[OF st] split: val.splits)

lemma post_set_prop:
  assumes st: "stable I"
    and rc: "\<And>tk s Q. I s \<Longrightarrow> (\<And>r s'. I s' \<Longrightarrow> Q r s') \<Longrightarrow> post (rec tk s) Q"
    and I: "I s" and Q: "\<And>r s'. I s' \<Longrightarrow> Q r s'"
  shows "post (set_prop rec v k x s) Q"
  unfolding set_prop_def using I
  by (auto intro!: post_handler_set[OF st rc] Q stable_rules[OF st]
      split: val.splits sum.splits)

lemma post_ref_set:
  assumes st: "stable I"
    and rc: "\<And>tk s Q. I s \<Longrightarrow> (\<And>r s'. I s' \<Longrightarrow> Q r s') \<Longrightarrow> post (rec tk s) Q"
    and I: "I s" and Q: "\<And>r s'. I s' \<Longrightarrow> Q r s'"
  shows "post (ref_set rec r v s) Q"
  unfolding ref_set_def using I
  by (auto intro!: post_trigger[OF st rc] Q stable_rules[OF st])

lemma post_computed:
  assumes st: "stable I"
    and rc: "\<And>tk s Q. I s \<Longrightarrow> (\<And>r s'. I s' \<Longrightarrow> Q r s') \<Longrightarrow> post (rec tk s) Q"
    and I: "I s" and Q: "\<And>r s'. I s' \<Longrightarrow> Q r s'"
  shows "post (computed rec g sto s) Q"
  unfolding computed_def using I
  by (auto simp: Let_def intro!: post_effect[OF st rc] Q stable_rules[OF st] split: outcome.splits)

lemma post_computed_get:
  assumes st: "stable I"
    and rc: "\<And>tk s Q. I s \<Longrightarrow> (\<And>r s'. I s' \<Longrightarrow> Q r s') \<Longrightarrow> post (rec tk s) Q"
    and I: "I s" and Q: "\<And>r s'. I s' \<Longrightarrow> Q r s'"
  shows "post (computed_get rec c s) Q"
  unfolding computed_get_def using I
  by (auto simp: Let_def intro!: post_effectFn[OF st rc] Q stable_rules[OF st]
      split: outcome.splits)

lemma post_computed_set:
  assumes st: "stable I"
    and rc: "\<And>tk s Q. I s \<Longrightarrow> (\<And>r s'. I s' \<Longrightarrow> Q r s') \<Longrightarrow> post (rec tk s) Q"
    and I: "I s" and Q: "\<And>r s'. I s' \<Longrightarrow> Q r s'"
  shows "post (computed_set rec c v s) Q"
  unfolding computed_set_def using I
  by (auto intro!: rc Q stable_rules[OF st] split: outcome.splits option.splits)

lemma post_watch:
  assumes st: "stable I"
    and rc: "\<And>tk s Q. I s \<Longrightarrow> (\<And>r s'. I s' \<Longrightarrow> Q r s') \<Longrightarrow> post (rec tk s) Q"
    and I: "I s" and Q: "\<And>r s'. I s' \<Longrightarrow> Q r s'"
  shows "post (watch rec src cb opts s) Q"
  unfolding watch_def using I
  by (auto simp: Let_def intro!: post_effect[OF st rc] post_job[OF st rc] post_effectFn[OF st rc]
      Q stable_rules[OF st] split: outcome.splits)

lemma post_stop_watch:
  assumes st: "stable I"
    and rc: "\<And>tk s Q. I s \<Longrightarrow> (\<And>r s'. I s' \<Longrightarrow> Q r s') \<Longrightarrow> post (rec tk s) Q"
    and I: "I s" and Q: "\<And>r s'. I s' \<Longrightarrow> Q r s'"
  shows "post (stop_watch rec w s) Q"
  unfolding stop_watch_def using I
  by (auto intro!: post_stop[OF st rc] rc Q split: outcome.splits option.splits)

lemma post_run_queue:
  assumes st: "stable I"
    and rc: "\<And>tk s Q. I s \<Longrightarrow> (\<And>r s'. I s' \<Longrightarrow> Q r s') \<Longrightarrow> post (rec tk s) Q"
  shows "I s \<Longrightarrow> (\<And>r s'. I s' \<Longrightarrow> Q r s') \<Longrightarrow> post (run_queue rec es s) Q"
proof (induction es arbitrary: s Q)
  case Nil
  then show ?case by simp
next
  case (Cons e es)
  show ?case
    using Cons.prems
    by (auto intro!: post_effectFn[OF st rc] Cons.IH split: outcome.splits)
qed

lemma post_batch:
  assumes st: "stable I"
    and rc: "\<And>tk s Q. I s \<Longrightarrow> (\<And>r s'. I s' \<Longrightarrow> Q r s') \<Longrightarrow> post (rec tk s) Q"
    and I: "I s" and Q: "\<And>r s'. I s' \<Longrightarrow> Q r s'"
  shows "post (batch rec f s) Q"
  unfolding batch_def using I
  by (auto intro!: rc post_run_queue[OF st rc] Q stable_rules[OF st] split: outcome.splits)

lemma post_run_prog:
  assumes st: "stable I"
    and rc: "\<And>tk s Q. I s \<Longrightarrow> (\<And>r s'. I s' \<Longrightarrow> Q r s') \<Longrightarrow> post (rec tk s) Q"
    and I: "I s" and Q: "\<And>r s'. I s' \<Longrightarrow> Q r s'"
  shows "post (run_prog rec p s) Q"
  unfolding run_prog_def using I
  by (cases p)
     (auto simp: case_prod_beta
        intro!: rc Q post_get_prop[OF st] post_set_prop[OF st rc] post_ref_set[OF st rc]
          post_computed[OF st rc] post_computed_get[OF st rc] post_computed_set[OF st rc]
          post_effect[OF st rc] post_effectFn[OF st rc] post_stop[OF st rc] post_watch[OF st rc]
          post_stop_watch[OF st rc] post_batch[OF st rc] post_trigger[OF st rc]
          stable_rules[OF st] stable_ref_get[OF st]
        split: outcome.splits)

lemma post_exec_body:
  assumes st: "stable I"
    and rc: "\<And>tk s Q. I s \<Longrightarrow> (\<And>r s'. I s' \<Longrightarrow> Q r s') \<Longrightarrow> post (rec tk s) Q"
    and I: "I s" and Q: "\<And>r s'. I s' \<Longrightarrow> Q r s'"
  shows "post (exec_body rec tk s) Q"
  unfolding exec_body_def using I
  by (cases tk) (auto intro!: post_run_prog[OF st rc] post_trigger[OF st rc] Q)

lemma post_exec:
  assumes st: "stable I"
  shows "I s \<Longrightarrow> (\<And>r s'. I s' \<Longrightarrow> Q r s') \<Longrightarrow> post (exec n tk s) Q"
proof (induction n arbitrary: s Q tk)
  case 0
  then show ?case by simp
next
  case (Suc n)
  show ?case
    using Suc.prems by (auto intro!: post_exec_body[OF st] Suc.IH)
qed

theorem stable_exec:
  "stable I \<Longrightarrow> I s \<Longrightarrow> exec n tk s = Some (r, s') \<Longrightarrow> I s'"
  using post_exec[of I s "\<lambda>r. I" n tk] by simp

section \<open>Frames of the state updates\<close>

lemma fold_dep_delete_fields [simp]:
  "heap (fold (dep_delete e) ds s) = heap s"
  "proxies (fold (dep_delete e) ds s) = proxies s"
  "reactiveMap (fold (dep_delete e) ds s) = reactiveMap s"
  "refs (fold (dep_delete e) ds s) = refs s"
  "computeds (fold (dep_delete e) ds s) = computeds s"
  "watchers (fold (dep_delete e) ds s) = watchers s"
  "effects (fold (dep_delete e) ds s) = effects s"
  "activeEffect (fold (dep_delete e) ds s) = activeEffect s"
  "effectStack (fold (dep_delete e) ds s) = effectStack s"
  "isBatching (fold (dep_delete e) ds s) = isBatching s"
  "batchQueue (fold (dep_delete e) ds s) = batchQueue s"
  "microtasks (fold (dep_delete e) ds s) = microtasks s"
  "trace (fold (dep_delete e) ds s) = trace s"
  by (induction ds arbitrary: s; simp add: dep_delete_def)+

lemma cleanup_fields [simp]:
  "heap (cleanup e s) = heap s" "proxies (cleanup e s) = proxies s"
  "reactiveMap (cleanup e s) = reactiveMap s" "refs (cleanup e s) = refs s"
  "computeds (cleanup e s) = computeds s" "watchers (cleanup e s) = watchers s"
  "activeEffect (cleanup e s) = activeEffect s" "effectStack (cleanup e s) = effectStack s"
  "isBatching (cleanup e s) = isBatching s" "batchQueue (cleanup e s) = batchQueue s"
  "microtasks (cleanup e s) = microtasks s" "trace (cleanup e s) = trace s"
  "length (effects (cleanup e s)) = length (effects s)"
  by (simp_all add: cleanup_def Let_def)

lemma begin_run_fields [simp]:
  "heap (begin_run e s) = heap s" "proxies (begin_run e s) = proxies s"
  "reactiveMap (begin_run e s) = reactiveMap s" "refs (begin_run e s) = refs s"
  "computeds (begin_run e s) = computeds s" "watchers (begin_run e s) = watchers s"
  "activeEffect (begin_run e s) = Some e" "effectStack (begin_run e s) = e # effectStack s"
  "isBatching (begin_run e s) = isBatching s" "batchQueue (begin_run e s) = batchQueue s"
  "microtasks (begin_run e s) = microtasks s" "trace (begin_run e s) = trace s @ [ERun e]"
  "length (effects (begin_run e s)) = length (effects s)"
  by (simp_all add: begin_run_def Let_def)

lemma end_run_fields [simp]:
  "heap (end_run s) = heap s" "proxies (end_run s) = proxies s"
  "reactiveMap (end_run s) = reactiveMap s" "refs (end_run s) = refs s"
  "computeds (end_run s) = computeds s" "watchers (end_run s) = watchers s"
  "effects (end_run s) = effects s" "targetMap (end_run s) = targetMap s"
  "effectStack (end_run s) = tl (effectStack s)"
  "isBatching (end_run s) = isBatching s" "batchQueue (end_run s) = batchQueue s"
  "microtasks (end_run s) = microtasks s" "trace (end_run s) = trace s"
  by (simp_all add: end_run_def Let_def)

lemma set_inactive_fields [simp]:
  "heap (set_inactive e s) = heap s" "proxies (set_inactive e s) = proxies s"
  "reactiveMap (set_inactive e s) = reactiveMap s" "refs (set_inactive e s) = refs s"
  "computeds (set_inactive e s) = computeds s" "watchers (set_inactive e s) = watchers s"
  "activeEffect (set_inactive e s) = activeEffect s"
  "effectStack (set_inactive e s) = effectStack s" "targetMap (set_inactive e s) = targetMap s"
  "isBatching (set_inactive e s) = isBatching s" "batchQueue (set_inactive e s) = batchQueue s"
  "microtasks (set_inactive e s) = microtasks s" "trace (set_inactive e s) = trace s"
  "length (effects (set_inactive e s)) = length (effects s)"
  by (simp_all add: set_inactive_def)

lemma reactive_fields [simp]:
  "heap (snd (reactive v s)) = heap s" "refs (snd (reactive v s)) = refs s"
  "computeds (snd (reactive v s)) = computeds s" "watchers (snd (reactive v s)) = watchers s"
  "effects (snd (reactive v s)) = effects s"
  "activeEffect (snd (reactive v s)) = activeEffect s"
  "effectStack (snd (reactive v s)) = effectStack s"
  "targetMap (snd (reactive v s)) = targetMap s"
  "isBatching (snd (reactive v s)) = isBatching s"
  "batchQueue (snd (reactive v s)) = batchQueue s"
  "microtasks (snd (reactive v s)) = microtasks s" "trace (snd (reactive v s)) = trace s"
  by (simp_all add: reactive_def split: val.splits option.splits)

lemmas other_prims = new_effect_def set_dirty_def set_c_value_def set_oldValue_def
  set_w_cleanup_def queueMicrotask_def new_object_def ref_def ref_store_def new_computed_def
  new_watcher_def set_batching_def clear_queue_def

text \<open>The queue of \<open>batch\<close> is never filled.\<close>

lemma stable_queue_empty: "stable (\<lambda>s. batchQueue s = [])"
  unfolding stable_def by (simp add: other_prims)

lemma stable_trace_prefix: "stable (\<lambda>s. \<exists>xs. trace s = tr @ xs)"
  unfolding stable_def by (auto simp: other_prims)

section \<open>Fuel\<close>

lemma flat_le_refl [simp]: "flat_le x x"
  by (simp add: flat_le_def)

lemma flat_le_None [simp]: "flat_le None y"
  by (simp add: flat_le_def)

lemma flat_leD: "flat_le x y \<Longrightarrow> x = Some r \<Longrightarrow> y = Some r"
  by (auto simp: flat_le_def)

lemma flat_le_bnd:
  assumes "flat_le (m s) (m' s)" "\<And>v s1. flat_le (f v s1) (f' v s1)"
  shows "flat_le (bnd m f s) (bnd m' f' s)"
proof (cases "m s")
  case None
  then show ?thesis by (simp add: bnd_def)
next
  case (Some p)
  with assms(1) have "m' s = Some p" by (simp add: flat_le_def)
  with Some assms(2) show ?thesis
    by (auto simp: bnd_def split: outcome.splits prod.splits)
qed

lemma flat_le_try_finally:
  assumes "flat_le (m s) (m' s)" "\<And>s1. flat_le (fin s1) (fin' s1)"
  shows "flat_le (try_finally m fin s) (try_finally m' fin' s)"
proof (cases "m s")
  case None
  then show ?thesis by (simp add: try_finally_def)
next
  case (Some p)
  with assms(1) have m': "m' s = Some p" by (simp add: flat_le_def)
  obtain out s1 where p: "p = (out, s1)" by (cases p)
  show ?thesis
  proof (cases "fin s1")
    case None
    with Some p show ?thesis by (simp add: try_finally_def)
  next
    case fs: (Some q)
    with assms(2)[of s1] have "fin' s1 = Some q" by (simp add: flat_le_def)
    with Some m' p fs show ?thesis by (simp add: try_finally_def)
  qed
qed

lemma mono_effectFn:
  assumes rc: "\<And>tk s. flat_le (rec tk s) (rec' tk s)"
  shows "flat_le (effectFn rec e s) (effectFn rec' e s)"
  unfolding effectFn_def
  by (auto intro!: flat_le_try_finally rc)

lemma mono_effect:
  assumes rc: "\<And>tk s. flat_le (rec tk s) (rec' tk s)"
  shows "flat_le (effect rec f lz cp sc os s) (effect rec' f lz cp sc os s)"
  unfolding effect_def
  by (auto simp: Let_def intro!: flat_le_bnd mono_effectFn[OF rc])

lemma mono_stop:
  assumes rc: "\<And>tk s. flat_le (rec tk s) (rec' tk s)"
  shows "flat_le (stop rec e s) (stop rec' e s)"
  unfolding stop_def
  by (auto simp: Let_def intro!: flat_le_bnd rc split: option.splits)

lemma mono_job:
  assumes rc: "\<And>tk s. flat_le (rec tk s) (rec' tk s)"
  shows "flat_le (job rec w s) (job rec' w s)"
  unfolding job_def
  by (auto simp: Let_def intro!: flat_le_bnd rc mono_effectFn[OF rc] split: option.splits)

lemma mono_run_scheduler:
  assumes rc: "\<And>tk s. flat_le (rec tk s) (rec' tk s)"
  shows "flat_le (run_scheduler rec sc e s) (run_scheduler rec' sc e s)"
  unfolding run_scheduler_def
  by (auto simp: Let_def intro!: rc mono_job[OF rc] split: sched.splits flush.splits)

lemma mono_replay:
  assumes rc: "\<And>tk s. flat_le (rec tk s) (rec' tk s)"
  shows "flat_le (replay rec e s) (replay rec' e s)"
  unfolding replay_def
  by (auto intro!: mono_run_scheduler[OF rc] mono_effectFn[OF rc] split: sched.splits)

lemma mono_replay_all:
  assumes rc: "\<And>tk s. flat_le (rec tk s) (rec' tk s)"
  shows "flat_le (replay_all rec es s) (replay_all rec' es s)"
  by (induction es arbitrary: s) (auto intro!: flat_le_bnd mono_replay[OF rc])

lemma mono_trigger:
  assumes rc: "\<And>tk s. flat_le (rec tk s) (rec' tk s)"
  shows "flat_le (trigger rec t k ty s) (trigger rec' t k ty s)"
  unfolding trigger_def
  by (auto simp: Let_def intro!: flat_le_bnd mono_replay_all[OF rc] split: option.splits)

lemma mono_handler_set:
  assumes rc: "\<And>tk s. flat_le (rec tk s) (rec' tk s)"
  shows "flat_le (handler_set rec a k v s) (handler_set rec' a k v s)"
  unfolding handler_set_def
  by (auto simp: Let_def intro!: flat_le_bnd mono_trigger[OF rc] split: option.splits sum.splits)

lemma mono_set_prop:
  assumes rc: "\<And>tk s. flat_le (rec tk s) (rec' tk s)"
  shows "flat_le (set_prop rec v k x s) (set_prop rec' v k x s)"
  unfolding set_prop_def
  by (auto intro!: mono_handler_set[OF rc] split: val.splits sum.splits)

lemma mono_ref_set:
  assumes rc: "\<And>tk s. flat_le (rec tk s) (rec' tk s)"
  shows "flat_le (ref_set rec r v s) (ref_set rec' r v s)"
  unfolding ref_set_def
  by (auto intro!: mono_trigger[OF rc])

lemma mono_computed:
  assumes rc: "\<And>tk s. flat_le (rec tk s) (rec' tk s)"
  shows "flat_le (computed rec g sto s) (computed rec' g sto s)"
  unfolding computed_def
  by (auto simp: Let_def intro!: flat_le_bnd mono_effect[OF rc])

lemma mono_computed_get:
  assumes rc: "\<And>tk s. flat_le (rec tk s) (rec' tk s)"
  shows "flat_le (computed_get rec c s) (computed_get rec' c s)"
  unfolding computed_get_def
  by (auto simp: Let_def intro!: flat_le_bnd mono_effectFn[OF rc])

lemma mono_computed_set:
  assumes rc: "\<And>tk s. flat_le (rec tk s) (rec' tk s)"
  shows "flat_le (computed_set rec c v s) (computed_set rec' c v s)"
  unfolding computed_set_def
  by (auto intro!: flat_le_bnd rc split: option.splits)

lemma mono_watch:
  assumes rc: "\<And>tk s. flat_le (rec tk s) (rec' tk s)"
  shows "flat_le (watch rec src cb opts s) (watch rec' src cb opts s)"
  unfolding watch_def
  by (auto simp: Let_def intro!: flat_le_bnd mono_effect[OF rc] mono_job[OF rc] mono_effectFn[OF rc])

lemma mono_stop_watch:
  assumes rc: "\<And>tk s. flat_le (rec tk s) (rec' tk s)"
  shows "flat_le (stop_watch rec w s) (stop_watch rec' w s)"
  unfolding stop_watch_def
  by (auto intro!: flat_le_bnd mono_stop[OF rc] rc split: option.splits)

lemma mono_run_queue:
  assumes rc: "\<And>tk s. flat_le (rec tk s) (rec' tk s)"
  shows "flat_le (run_queue rec es s) (run_queue rec' es s)"
  by (induction es arbitrary: s) (auto intro!: flat_le_bnd mono_effectFn[OF rc])

lemma mono_batch:
  assumes rc: "\<And>tk s. flat_le (rec tk s) (rec' tk s)"
  shows "flat_le (batch rec f s) (batch rec' f s)"
  unfolding batch_def
  by (auto intro!: flat_le_try_finally flat_le_bnd rc mono_run_queue[OF rc])

lemma mono_run_prog:
  assumes rc: "\<And>tk s. flat_le (rec tk s) (rec' tk s)"
  shows "flat_le (run_prog rec p s) (run_prog rec' p s)"
  unfolding run_prog_def
  by (cases p)
     (auto simp: case_prod_beta
        intro!: flat_le_bnd rc mono_set_prop[OF rc] mono_ref_set[OF rc] mono_computed[OF rc]
          mono_computed_get[OF rc] mono_computed_set[OF rc] mono_effect[OF rc]
          mono_effectFn[OF rc] mono_stop[OF rc] mono_watch[OF rc] mono_stop_watch[OF rc]
          mono_batch[OF rc] mono_trigger[OF rc])

lemma mono_exec_body:
  assumes rc: "\<And>tk s. flat_le (rec tk s) (rec' tk s)"
  shows "flat_le (exec_body rec tk s) (exec_body rec' tk s)"
  unfolding exec_body_def
  by (cases tk) (auto intro!: mono_run_prog[OF rc] mono_trigger[OF rc])

lemma exec_Suc_mono: "flat_le (exec n tk s) (exec (Suc n) tk s)"
proof (induction n arbitrary: tk s)
  case 0
  show ?case by simp
next
  case (Suc n)
  have a: "exec (Suc n) tk s = exec_body (exec n) tk s" by simp
  have b: "exec (Suc (Suc n)) tk s = exec_body (exec (Suc n)) tk s" by simp
  show ?case unfolding a b by (rule mono_exec_body) (rule Suc.IH)
qed

text \<open>More fuel never changes a result.\<close>

theorem exec_mono: "exec n tk s = Some r \<Longrightarrow> exec (n + m) tk s = Some r"
proof (induction m)
  case 0
  then show ?case by simp
next
  case (Suc m)
  from flat_leD[OF exec_Suc_mono Suc.IH[OF Suc.prems]] show ?case by simp
qed

section \<open>The registry of dependency sets\<close>

lemma map_entry_distinct:
  "distinct (map fst al) \<Longrightarrow>
     AList.map_entry k f al = map (\<lambda>kv. if fst kv = k then (fst kv, f (snd kv)) else kv) al"
proof (induction al)
  case Nil
  then show ?case by simp
next
  case (Cons p ps)
  show ?case
  proof (cases "fst p = k")
    case True
    from Cons.prems have "fst p \<notin> fst ` set ps" by simp
    have "\<forall>kv \<in> set ps. fst kv \<noteq> k"
    proof
      fix kv assume "kv \<in> set ps"
      then have m: "fst kv \<in> fst ` set ps" by simp
      from m \<open>fst p \<notin> fst ` set ps\<close> True show "fst kv \<noteq> k" by metis
    qed
    then have "map (\<lambda>kv. if fst kv = k then (fst kv, f (snd kv)) else kv) ps = ps"
      by (induction ps) auto
    with True show ?thesis by simp
  next
    case False
    with Cons show ?thesis by simp
  qed
qed

lemma set_map_entry_sub:
  "(k', v') \<in> set (AList.map_entry k f al) \<Longrightarrow>
     \<exists>v. (k', v) \<in> set al \<and> (v' = v \<or> (k' = k \<and> v' = f v))"
  by (induction al) (auto split: if_splits)

lemma set_update_sub: "kv \<in> set (AList.update k v al) \<Longrightarrow> kv \<in> set al \<or> kv = (k, v)"
  by (induction al) (auto split: if_splits)

lemma registered_dep_delete: "registered e' (dep_delete e tk s) \<Longrightarrow> registered e' s"
proof -
  assume "registered e' (dep_delete e tk s)"
  then obtain t dm' k d' where
    a: "(t, dm') \<in> set (AList.map_entry (fst tk) (AList.map_entry (snd tk) (removeAll e)) (targetMap s))"
    and b: "(k, d') \<in> set dm'" and c: "e' \<in> set d'"
    by (auto simp: registered_def dep_delete_def)
  from set_map_entry_sub[OF a] obtain dm where dm: "(t, dm) \<in> set (targetMap s)"
    and dm': "dm' = dm \<or> dm' = AList.map_entry (snd tk) (removeAll e) dm" by blast
  have "\<exists>d. (k, d) \<in> set dm \<and> set d' \<subseteq> set d"
  proof (cases "dm' = dm")
    case True
    with b show ?thesis by auto
  next
    case False
    with dm' have "dm' = AList.map_entry (snd tk) (removeAll e) dm" by simp
    with b set_map_entry_sub[of k d' "snd tk" "removeAll e" dm] show ?thesis by auto
  qed
  then obtain d where "(k, d) \<in> set dm" "set d' \<subseteq> set d" by blast
  with dm c have "(t, dm) \<in> set (targetMap s) \<and> (k, d) \<in> set (snd (t, dm)) \<and> e' \<in> set (snd (k, d))"
    by auto
  then show ?thesis unfolding registered_def by blast
qed

lemma registered_fold_dep_delete:
  "registered e' (fold (dep_delete e) ds s) \<Longrightarrow> registered e' s"
  by (induction ds arbitrary: s) (auto dest: registered_dep_delete)

lemma registered_effects_irrelevant [simp]:
  "registered e (s\<lparr>effects := x\<rparr>) = registered e s"
  by (simp add: registered_def)

lemma registered_cleanup: "registered e' (cleanup e s) \<Longrightarrow> registered e' s"
  by (auto simp: cleanup_def Let_def dest: registered_fold_dep_delete)

lemma registered_track:
  "registered e (track t k s) \<Longrightarrow> registered e s \<or> activeEffect s = Some e"
proof -
  assume r: "registered e (track t k s)"
  show ?thesis
  proof (cases "activeEffect s")
    case None
    with r show ?thesis by (simp add: track_def Let_def registered_def emit_def)
  next
    case (Some a)
    define dm where "dm = (case map_of (targetMap s) t of None \<Rightarrow> [] | Some dm \<Rightarrow> dm)"
    define dep where "dep = depsMap_get dm k"
    define dep' where "dep' = (if a \<in> set dep then dep else dep @ [a])"
    have tm: "targetMap (track t k s) = AList.update t (AList.update k dep' dm) (targetMap s)"
      using Some by (simp add: track_def Let_def dm_def dep_def dep'_def emit_def)
    have dm_sub: "\<exists>td \<in> set (targetMap s). kd \<in> set (snd td)" if "kd \<in> set dm" for kd
    proof (cases "map_of (targetMap s) t")
      case None
      with that show ?thesis by (simp add: dm_def)
    next
      case (Some x)
      then have "(t, x) \<in> set (targetMap s)" by (rule map_of_SomeD)
      moreover from Some that have "kd \<in> set (snd (t, x))" by (simp add: dm_def)
      ultimately show ?thesis by blast
    qed
    have dep_sub: "\<exists>kd \<in> set dm. x \<in> set (snd kd)" if "x \<in> set dep" for x
    proof (cases "map_of dm k")
      case None
      with that show ?thesis by (simp add: dep_def depsMap_get_def)
    next
      case (Some d)
      then have "(k, d) \<in> set dm" by (rule map_of_SomeD)
      moreover from Some that have "x \<in> set (snd (k, d))" by (simp add: dep_def depsMap_get_def)
      ultimately show ?thesis by blast
    qed
    from r tm obtain td kd where td: "td \<in> set (AList.update t (AList.update k dep' dm) (targetMap s))"
      and kd: "kd \<in> set (snd td)" and e: "e \<in> set (snd kd)"
      by (auto simp: registered_def)
    from set_update_sub[OF td] show ?thesis
    proof
      assume "td \<in> set (targetMap s)"
      with kd e show ?thesis unfolding registered_def by blast
    next
      assume "td = (t, AList.update k dep' dm)"
      with kd have "kd \<in> set (AList.update k dep' dm)" by simp
      from set_update_sub[OF this] show ?thesis
      proof
        assume "kd \<in> set dm"
        from dm_sub[OF this] e show ?thesis unfolding registered_def by blast
      next
        assume "kd = (k, dep')"
        with e have "e \<in> set dep \<or> e = a" by (auto simp: dep'_def split: if_splits)
        then show ?thesis
        proof
          assume "e \<in> set dep"
          from dep_sub[OF this] obtain kd2 where k2: "kd2 \<in> set dm" "e \<in> set (snd kd2)" by blast
          from dm_sub[OF k2(1)] k2(2) show ?thesis unfolding registered_def by blast
        next
          assume "e = a" with Some show ?thesis by simp
        qed
      qed
    qed
  qed
qed

lemma strip_dep_empty [simp]: "strip_dep e {} tm = tm"
  by (simp add: strip_dep_def map_idI)

lemma strip_dep_keys [simp]: "map fst (strip_dep e K tm) = map fst tm"
  by (simp add: strip_dep_def comp_def)

lemma keys_distinct_strip: "keys_distinct tm \<Longrightarrow> keys_distinct (strip_dep e K tm)"
  unfolding keys_distinct_def
  by (auto simp: strip_dep_def comp_def)

lemma strip_dep_strip:
  "strip_dep e K (strip_dep e K' tm) = strip_dep e (K \<union> K') tm"
  by (auto simp: strip_dep_def)

lemma dep_delete_strip:
  assumes "keys_distinct (targetMap s)"
  shows "targetMap (dep_delete e tk s) = strip_dep e {tk} (targetMap s)"
proof -
  have inner: "AList.map_entry (snd tk) (removeAll e) dm
      = map (\<lambda>kd. (fst kd, if fst kd = snd tk then removeAll e (snd kd) else snd kd)) dm"
    if "distinct (map fst dm)" for dm
    using map_entry_distinct[OF that, of "snd tk" "removeAll e"]
    by (auto intro!: map_cong)
  from assms have d: "distinct (map fst (targetMap s))" by (simp add: keys_distinct_def)
  have "AList.map_entry (fst tk) (AList.map_entry (snd tk) (removeAll e)) (targetMap s)
      = map (\<lambda>td. if fst td = fst tk
                   then (fst td, AList.map_entry (snd tk) (removeAll e) (snd td)) else td)
          (targetMap s)"
    by (rule map_entry_distinct[OF d])
  also have "\<dots> = strip_dep e {tk} (targetMap s)"
    unfolding strip_dep_def
  proof (rule map_cong[OF refl])
    fix td assume "td \<in> set (targetMap s)"
    with assms have "distinct (map fst (snd td))" by (simp add: keys_distinct_def)
    from inner[OF this]
    show "(if fst td = fst tk
           then (fst td, AList.map_entry (snd tk) (removeAll e) (snd td)) else td)
        = (fst td, map (\<lambda>kd. (fst kd, if (fst td, fst kd) \<in> {tk}
              then removeAll e (snd kd) else snd kd)) (snd td))"
      by (cases tk; cases td) (auto intro!: map_idI[symmetric] simp: map_idI)
  qed
  finally show ?thesis by (simp add: dep_delete_def)
qed

lemma fold_dep_delete_strip:
  "keys_distinct (targetMap s) \<Longrightarrow>
     targetMap (fold (dep_delete e) ds s) = strip_dep e (set ds) (targetMap s)"
proof (induction ds arbitrary: s)
  case Nil
  then show ?case by simp
next
  case (Cons tk ds)
  from dep_delete_strip[OF Cons.prems]
  have t1: "targetMap (dep_delete e tk s) = strip_dep e {tk} (targetMap s)" .
  with Cons.prems have "keys_distinct (targetMap (dep_delete e tk s))"
    by (simp add: keys_distinct_strip)
  from Cons.IH[OF this] t1 show ?case
    by (simp add: strip_dep_strip Un_commute)
qed

lemma cleanup_unregisters:
  assumes ok: "registry_ok s"
  shows "\<not> registered e (cleanup e s)"
proof
  assume r: "registered e (cleanup e s)"
  let ?ds = "deps (effects s ! e)"
  from ok have kd: "keys_distinct (targetMap s)" by (simp add: registry_ok_def keys_distinct_def)
  from r have "registered e (fold (dep_delete e) ?ds s)"
    by (simp add: cleanup_def Let_def)
  then obtain td' kd' where td': "td' \<in> set (strip_dep e (set ?ds) (targetMap s))"
    and kd': "kd' \<in> set (snd td')" and e: "e \<in> set (snd kd')"
    by (auto simp: registered_def fold_dep_delete_strip[OF kd])
  from td' obtain td where td: "td \<in> set (targetMap s)"
    and td'_eq: "td' = (fst td, map (\<lambda>kd. (fst kd,
            if (fst td, fst kd) \<in> set ?ds then removeAll e (snd kd) else snd kd)) (snd td))"
    by (auto simp: strip_dep_def)
  from kd' td'_eq obtain kd0 where kd0: "kd0 \<in> set (snd td)"
    and kd'_eq: "kd' = (fst kd0,
            if (fst td, fst kd0) \<in> set ?ds then removeAll e (snd kd0) else snd kd0)"
    by auto
  from e kd'_eq have notin: "(fst td, fst kd0) \<notin> set ?ds" and e0: "e \<in> set (snd kd0)"
    by (auto split: if_splits)
  from ok td kd0 e0 have "(fst td, fst kd0) \<in> set ?ds"
    by (auto simp: registry_ok_def)
  with notin show False by simp
qed

lemma notified_registered:
  assumes "notified s t k ty = Some l" "e \<in> set l"
  shows "registered e s"
proof (cases "map_of (targetMap s) t")
  case None
  with assms show ?thesis by (simp add: notified_def)
next
  case (Some dm)
  then have tdm: "(t, dm) \<in> set (targetMap s)" by (rule map_of_SomeD)
  have get: "\<exists>kd \<in> set dm. x \<in> set (snd kd)" if "x \<in> set (depsMap_get dm k')" for x k'
  proof (cases "map_of dm k'")
    case None
    with that show ?thesis by (simp add: depsMap_get_def)
  next
    case (Some d)
    then have "(k', d) \<in> set dm" by (rule map_of_SomeD)
    moreover from Some that have "x \<in> set (snd (k', d))" by (simp add: depsMap_get_def)
    ultimately show ?thesis by blast
  qed
  have add: "x \<in> set (fst acc) \<union> set (snd acc) \<or> x \<in> set dep"
    if "x \<in> set (fst (addEffects st dep acc)) \<union> set (snd (addEffects st dep acc))"
    for dep acc x st
  proof -
    obtain es cs where acc: "acc = (es, cs)" by (cases acc)
    obtain es' cs' where r: "addEffects st dep (es, cs) = (es', cs')"
      by (cases "addEffects st dep (es, cs)")
    from addEffects_sets[OF r] acc r that show ?thesis by auto
  qed
  have loop: "length_loop st n dm' acc = Some acc' \<Longrightarrow>
      x \<in> set (fst acc') \<union> set (snd acc') \<Longrightarrow>
      x \<in> set (fst acc) \<union> set (snd acc) \<or> (\<exists>kd \<in> set dm'. x \<in> set (snd kd))"
    for n dm' acc acc' x st
  proof (induction st n dm' acc rule: length_loop.induct)
    case (1 s n acc)
    then show ?case by simp
  next
    case (2 s n kd dm acc)
    then obtain b where b: "key_ge (fst kd) n = Some b"
      and r: "length_loop s n dm (if b then addEffects s (snd kd) acc else acc) = Some acc'"
      by (auto split: option.splits)
    from "2.IH"[OF b r "2.prems"(2)]
    have d: "x \<in> set (fst (if b then addEffects s (snd kd) acc else acc))
               \<union> set (snd (if b then addEffects s (snd kd) acc else acc))
           \<or> (\<exists>kd \<in> set dm. x \<in> set (snd kd))" .
    show ?case
    proof (cases "\<exists>kd \<in> set dm. x \<in> set (snd kd)")
      case True
      then show ?thesis by auto
    next
      case False
      with d have m: "x \<in> set (fst (if b then addEffects s (snd kd) acc else acc))
               \<union> set (snd (if b then addEffects s (snd kd) acc else acc))" by simp
      show ?thesis
      proof (cases b)
        case True
        with m have "x \<in> set (fst (addEffects s (snd kd) acc)) \<union> set (snd (addEffects s (snd kd) acc))"
          by simp
        from add[OF this] show ?thesis by auto
      next
        case False
        with m show ?thesis by simp
      qed
    qed
  qed
  from assms Some obtain es cs where c: "collect s t k ty dm = Some (es, cs)" and l: "l = cs @ es"
    by (auto simp: notified_def split: option.splits)
  let ?a1 = "addEffects s (depsMap_get dm k) ([], [])"
  let ?a2 = "if ty = TAdd \<and> target_isArray s t
             then addEffects s (depsMap_get dm (Name ''length'')) ?a1 else ?a1"
  have el: "e \<in> set es \<union> set cs" using assms(2) l by auto
  have a2: "x \<in> set (depsMap_get dm k) \<or> x \<in> set (depsMap_get dm (Name ''length''))"
    if "x \<in> set (fst ?a2) \<union> set (snd ?a2)" for x
  proof (cases "ty = TAdd \<and> target_isArray s t")
    case True
    with that have "x \<in> set (fst (addEffects s (depsMap_get dm (Name ''length'')) ?a1))
        \<union> set (snd (addEffects s (depsMap_get dm (Name ''length'')) ?a1))" by simp
    from add[OF this] have "x \<in> set (fst ?a1) \<union> set (snd ?a1)
        \<or> x \<in> set (depsMap_get dm (Name ''length''))" .
    with add[of x s "depsMap_get dm k" "([], [])"] show ?thesis by auto
  next
    case False
    with that have "x \<in> set (fst ?a1) \<union> set (snd ?a1)" by simp
    from add[OF this] show ?thesis by simp
  qed
  have "e \<in> set (depsMap_get dm k) \<or> e \<in> set (depsMap_get dm (Name ''length''))
      \<or> (\<exists>kd \<in> set dm. e \<in> set (snd kd))"
  proof (cases "k = Name ''length'' \<and> target_isArray s t")
    case True
    with c have "length_loop s (target_length s t) dm ?a2 = Some (es, cs)"
      by (auto simp: collect_def Let_def split: if_splits)
    from loop[OF this, of e] el have "e \<in> set (fst ?a2) \<union> set (snd ?a2)
        \<or> (\<exists>kd \<in> set dm. e \<in> set (snd kd))" by simp
    with a2[of e] show ?thesis by blast
  next
    case False
    with c have "?a2 = (es, cs)" by (auto simp: collect_def Let_def)
    with el have "e \<in> set (fst ?a2) \<union> set (snd ?a2)" by simp
    from a2[OF this] show ?thesis by blast
  qed
  with get have "\<exists>kd \<in> set dm. e \<in> set (snd kd)" by blast
  with tdm show ?thesis unfolding registered_def by force
qed

lemma targetMap_cleanup_effects:
  "effects (cleanup e s) = (effects s)[e := (effects s ! e)\<lparr>deps := []\<rparr>]"
  by (simp add: cleanup_def Let_def)

lemma active_cleanup [simp]: "active (effects (cleanup e' s) ! e) = active (effects s ! e)"
  by (cases "e' < length (effects s)"; cases "e = e'")
     (simp_all add: targetMap_cleanup_effects list_update_beyond)

lemma active_track [simp]: "active (effects (track t k s) ! e) = active (effects s ! e)"
proof (cases "activeEffect s")
  case None
  then show ?thesis by (simp add: track_def Let_def emit_def)
next
  case (Some a)
  then show ?thesis
    by (cases "a < length (effects s)"; cases "e = a")
       (simp_all add: track_def Let_def emit_def list_update_beyond)
qed

lemma stable_stopped: "stable (stopped e)"
  unfolding stable_def stopped_def
  by (auto simp: other_prims begin_run_def Let_def set_inactive_def nth_append nth_list_update)

lemma run_count_emit [simp]:
  "run_count e (emit ev s) = run_count e s + (if ev = ERun e then 1 else 0)"
  by (simp add: run_count_def)

lemma run_count_track [simp]: "run_count e (track t k s) = run_count e s"
  by (simp add: run_count_def)

lemma run_count_begin_run [simp]:
  "run_count e (begin_run e' s) = run_count e s + (if e' = e then 1 else 0)"
  by (simp add: run_count_def)

lemma run_count_trace_eq: "trace s' = trace s \<Longrightarrow> run_count e s' = run_count e s"
  by (simp add: run_count_def)

lemma registered_targetMap_eq: "targetMap s' = targetMap s \<Longrightarrow> registered e s' = registered e s"
  by (simp add: registered_def)

lemma detached_frame:
  "targetMap s' = targetMap s \<Longrightarrow> effectStack s' = effectStack s
   \<Longrightarrow> activeEffect s' = activeEffect s \<Longrightarrow> detached e s' = detached e s"
  by (simp add: detached_def registered_def)

lemma detached_track: "detached e s \<Longrightarrow> detached e (track t k s)"
  using registered_track[of e t k s] by (auto simp: detached_def)

lemma detached_cleanup: "detached e s \<Longrightarrow> detached e (cleanup e' s)"
  using registered_cleanup[of e e' s] by (auto simp: detached_def)

lemma detached_begin_run: "detached e s \<Longrightarrow> e' \<noteq> e \<Longrightarrow> detached e (begin_run e' s)"
proof -
  assume d: "detached e s" and ne: "e' \<noteq> e"
  have "detached e (emit (ERun e') s)" using d by (simp add: detached_def registered_def)
  from detached_cleanup[OF this, of e'] ne show ?thesis
    by (simp add: detached_def begin_run_def Let_def registered_def)
qed

lemma detached_end_run: "detached e s \<Longrightarrow> detached e (end_run s)"
proof -
  assume d: "detached e s"
  then have "e \<notin> set (tl (effectStack s))"
    by (cases "effectStack s") (auto simp: detached_def)
  with d show ?thesis
    by (cases "tl (effectStack s)") (auto simp: detached_def registered_def end_run_def Let_def)
qed

lemma stable_quiet_detached: "stable (quiet_detached e c)"
  unfolding stable_def quiet_detached_def
proof (intro conjI allI impI; (elim conjE)?)
  fix s ev assume "c \<le> run_count e s" "run_count e s = c \<longrightarrow> detached e s"
    "run_count e (emit ev s) = c"
  then show "detached e (emit ev s)" by (auto simp: detached_def registered_def split: if_splits)
next
  fix s t k assume "run_count e s = c \<longrightarrow> detached e s" "run_count e (track t k s) = c"
  then show "detached e (track t k s)" by (simp add: detached_track)
next
  fix s e' assume "c \<le> run_count e s" "run_count e s = c \<longrightarrow> detached e s"
    "run_count e (begin_run e' s) = c"
  then show "detached e (begin_run e' s)"
    by (cases "e' = e") (auto simp: detached_begin_run)
next
  fix s assume "run_count e s = c \<longrightarrow> detached e s" "run_count e (end_run s) = c"
  then show "detached e (end_run s)" by (simp add: detached_end_run run_count_def)
next
  fix s e' assume "run_count e s = c \<longrightarrow> detached e s"
    "run_count e (set_inactive e' (cleanup e' s)) = c"
  then have "detached e (cleanup e' s)" by (simp add: detached_cleanup run_count_def)
  then show "detached e (set_inactive e' (cleanup e' s))"
    by (simp add: detached_def registered_def)
qed (auto simp: other_prims run_count_def detached_def registered_def)

lemma registry_ok_idle:
  "registry_ok s \<Longrightarrow> e \<notin> set (effectStack s) \<Longrightarrow> activeEffect s \<noteq> Some e"
  by (cases "effectStack s") (auto simp: registry_ok_def)

lemma stop_start:
  assumes ok: "registry_ok s" and e: "e < length (effects s)" and idle: "e \<notin> set (effectStack s)"
  shows "detached e (set_inactive e (cleanup e s))"
    and "stopped e (set_inactive e (cleanup e s))"
    and "run_count e (set_inactive e (cleanup e s)) = run_count e s"
proof -
  from cleanup_unregisters[OF ok, of e] registry_ok_idle[OF ok idle] idle
  show "detached e (set_inactive e (cleanup e s))"
    by (simp add: detached_def registered_def)
  from e show "stopped e (set_inactive e (cleanup e s))"
    by (simp add: stopped_def set_inactive_def)
  show "run_count e (set_inactive e (cleanup e s)) = run_count e s"
    by (simp add: run_count_def)
qed

lemma stop_cases:
  assumes "stop rec e s = Some (r, s1)" and "e < length (effects s)" and "active (effects s ! e)"
  shows "s1 = set_inactive e (cleanup e s) \<and> opt_onStop (effects s ! e) = None
       \<or> (\<exists>h r'. opt_onStop (effects s ! e) = Some h
            \<and> rec (TProg h) (emit (EOnStop e) (set_inactive e (cleanup e s))) = Some (r', s1))"
proof -
  have h: "opt_onStop (effects (set_inactive e (cleanup e s)) ! e) = opt_onStop (effects s ! e)"
    using assms(2) by (simp add: set_inactive_def targetMap_cleanup_effects)
  show ?thesis
    using assms unfolding stop_def Let_def h
    by (auto simp: bnd_def ret_def split: option.splits outcome.splits)
qed

lemma quiet_detached_notified:
  assumes "quiet_detached e c s" and "run_count e s = c" and "notified s t k ty = Some l"
  shows "e \<notin> set l"
  using assms notified_registered[of s t k ty l e]
  by (auto simp: quiet_detached_def detached_def)

text \<open>The bookkeeping holds of every state an execution from the empty module state ends in.\<close>

lemma registry_ok_active: "registry_ok s \<Longrightarrow> activeEffect s = Some a \<Longrightarrow> a < length (effects s)"
  by (cases "effectStack s") (auto simp: registry_ok_def)

lemma registry_ok_track:
  assumes ok: "registry_ok s"
  shows "registry_ok (track t k s)"
proof (cases "activeEffect s")
  case None
  with ok show ?thesis by (simp add: track_def Let_def registry_ok_def emit_def)
next
  case (Some a)
  define dm where "dm = (case map_of (targetMap s) t of None \<Rightarrow> [] | Some dm \<Rightarrow> dm)"
  define dep where "dep = depsMap_get dm k"
  define dep' where "dep' = (if a \<in> set dep then dep else dep @ [a])"
  define efs where "efs = (if a \<in> set dep then effects s
     else (effects s)[a := (effects s ! a)\<lparr>deps := set_add (t, k) (deps (effects s ! a))\<rparr>])"
  have tm: "targetMap (track t k s) = AList.update t (AList.update k dep' dm) (targetMap s)"
    using Some by (simp add: track_def Let_def dm_def dep_def dep'_def emit_def)
  have ef: "effects (track t k s) = efs"
    using Some by (simp add: track_def Let_def dm_def dep_def efs_def emit_def)
  have a_lt: "a < length (effects s)" by (rule registry_ok_active[OF ok Some])
  have len: "length efs = length (effects s)" by (simp add: efs_def)
  have mono: "tk \<in> set (deps (efs ! e))"
    if "e < length (effects s)" "tk \<in> set (deps (effects s ! e))" for e tk
    using that by (cases "e = a") (auto simp: efs_def set_add_def)
  have new: "(t, k) \<in> set (deps (efs ! a))" if "a \<notin> set dep"
    using that a_lt by (simp add: efs_def set_add_def)
  have dm_in: "dm = [] \<or> (t, dm) \<in> set (targetMap s)"
    by (cases "map_of (targetMap s) t") (auto simp: dm_def dest: map_of_SomeD)
  have old: "e < length (effects s) \<and> (fst td, fst kd) \<in> set (deps (effects s ! e))"
    and dist: "distinct (map fst (snd td))"
    if "td \<in> set (targetMap s)" "kd \<in> set (snd td)" "e \<in> set (snd kd)" for td kd e
    using ok that by (auto simp: registry_ok_def)
  have dm_distinct: "distinct (map fst dm)"
    using dm_in ok by (auto simp: registry_ok_def)
  have dep_in: "dep = [] \<or> (k, dep) \<in> set dm"
    by (cases "map_of dm k") (auto simp: dep_def depsMap_get_def dest: map_of_SomeD)
  have dm_old: "e < length (effects s) \<and> (t, fst kd) \<in> set (deps (effects s ! e))"
    if "kd \<in> set dm" "e \<in> set (snd kd)" for kd e
  proof -
    from that dm_in have "(t, dm) \<in> set (targetMap s)" by auto
    from old[OF this, of kd e] that show ?thesis by simp
  qed
  have dep_old: "e < length (effects s) \<and> (t, k) \<in> set (deps (effects s ! e))"
    if "e \<in> set dep" for e
  proof -
    from that dep_in have "(k, dep) \<in> set dm" by auto
    from dm_old[OF this, of e] that show ?thesis by simp
  qed
  have dep'_ok: "e < length efs \<and> (t, k) \<in> set (deps (efs ! e))" if "e \<in> set dep'" for e
  proof (cases "e \<in> set dep")
    case True
    from dep_old[OF True] mono[of e "(t, k)"] len show ?thesis by simp
  next
    case False
    with that have "e = a" "a \<notin> set dep" by (auto simp: dep'_def split: if_splits)
    with new a_lt len show ?thesis by simp
  qed
  have dm'_ok: "e < length efs \<and> (t, fst kd) \<in> set (deps (efs ! e))"
    if "kd \<in> set (AList.update k dep' dm)" "e \<in> set (snd kd)" for kd e
    using set_update_sub[OF that(1)]
  proof
    assume "kd \<in> set dm"
    from dm_old[OF this that(2)] mono[of e "(t, fst kd)"] len show ?thesis by simp
  next
    assume "kd = (k, dep')"
    with that(2) dep'_ok[of e] show ?thesis by simp
  qed
  have td_ok: "distinct (map fst (snd td))
      \<and> (\<forall>kd \<in> set (snd td). \<forall>e \<in> set (snd kd).
            e < length efs \<and> (fst td, fst kd) \<in> set (deps (efs ! e)))"
    if "td \<in> set (AList.update t (AList.update k dep' dm) (targetMap s))" for td
    using set_update_sub[OF that]
  proof
    assume in_old: "td \<in> set (targetMap s)"
    have "e < length efs \<and> (fst td, fst kd) \<in> set (deps (efs ! e))"
      if "kd \<in> set (snd td)" "e \<in> set (snd kd)" for kd e
      using old[OF in_old that] mono[of e "(fst td, fst kd)"] len by simp
    moreover from ok in_old have "distinct (map fst (snd td))" by (simp add: registry_ok_def)
    ultimately show ?thesis by blast
  next
    assume "td = (t, AList.update k dep' dm)"
    with dm'_ok dm_distinct show ?thesis by (simp add: distinct_update)
  qed
  have d1: "distinct (map fst (AList.update t (AList.update k dep' dm) (targetMap s)))"
    using ok by (simp add: registry_ok_def distinct_update)
  have rest: "(\<forall>e \<in> set (effectStack s). e < length efs)
     \<and> activeEffect s = (case effectStack s of [] \<Rightarrow> None | e # r \<Rightarrow> Some e)"
    using ok len by (simp add: registry_ok_def)
  show ?thesis
    unfolding registry_ok_def tm ef using d1 td_ok rest by simp
qed

lemma registry_ok_cleanup:
  assumes ok: "registry_ok s"
  shows "registry_ok (cleanup e s)"
proof -
  let ?ds = "deps (effects s ! e)"
  let ?efs = "(effects s)[e := (effects s ! e)\<lparr>deps := []\<rparr>]"
  from ok have kd: "keys_distinct (targetMap s)" by (simp add: registry_ok_def keys_distinct_def)
  have tm: "targetMap (cleanup e s) = strip_dep e (set ?ds) (targetMap s)"
    by (simp add: cleanup_def Let_def fold_dep_delete_strip[OF kd])
  have ef: "effects (cleanup e s) = ?efs" by (rule targetMap_cleanup_effects)
  from keys_distinct_strip[OF kd, of e "set ?ds"]
  have kds: "keys_distinct (strip_dep e (set ?ds) (targetMap s))" .
  have bref: "e' < length ?efs \<and> (fst td', fst kd') \<in> set (deps (?efs ! e'))"
    if td': "td' \<in> set (strip_dep e (set ?ds) (targetMap s))"
      and kd': "kd' \<in> set (snd td')" and e': "e' \<in> set (snd kd')" for td' kd' e'
  proof -
    from td' obtain td where td: "td \<in> set (targetMap s)"
      and td'_eq: "td' = (fst td, map (\<lambda>kd. (fst kd,
            if (fst td, fst kd) \<in> set ?ds then removeAll e (snd kd) else snd kd)) (snd td))"
      by (auto simp: strip_dep_def)
    from kd' td'_eq obtain kd0 where kd0: "kd0 \<in> set (snd td)"
      and kd'_eq: "kd' = (fst kd0,
            if (fst td, fst kd0) \<in> set ?ds then removeAll e (snd kd0) else snd kd0)"
      by auto
    from e' kd'_eq have e0: "e' \<in> set (snd kd0)" by (auto split: if_splits)
    from ok td kd0 e0 have o: "e' < length (effects s)"
      "(fst td, fst kd0) \<in> set (deps (effects s ! e'))"
      by (auto simp: registry_ok_def)
    have ne: "e' \<noteq> e"
    proof
      assume "e' = e"
      with o have "(fst td, fst kd0) \<in> set ?ds" by simp
      with kd'_eq e' \<open>e' = e\<close> show False by simp
    qed
    from o ne td'_eq kd'_eq show ?thesis by simp
  qed
  have rest: "(\<forall>e \<in> set (effectStack s). e < length ?efs)
     \<and> activeEffect s = (case effectStack s of [] \<Rightarrow> None | e # r \<Rightarrow> Some e)"
    using ok by (simp add: registry_ok_def)
  show ?thesis
    unfolding registry_ok_def tm ef using kds bref rest
    by (simp add: keys_distinct_def)
qed

lemma registry_ok_frame:
  assumes "registry_ok s" "targetMap s' = targetMap s" "effectStack s' = effectStack s"
    "activeEffect s' = activeEffect s" "length (effects s') = length (effects s)"
    "\<And>e. e < length (effects s) \<Longrightarrow> deps (effects s' ! e) = deps (effects s ! e)"
  shows "registry_ok s'"
  using assms unfolding registry_ok_def by simp

lemma registry_ok_init: "registry_ok init"
  by (simp add: registry_ok_def init_def)

lemma registry_ok_begin_run:
  assumes ok: "registry_ok s" and e: "e < length (effects s)"
  shows "registry_ok (begin_run e s)"
proof -
  have "registry_ok (emit (ERun e) s)" using ok by (simp add: registry_ok_def)
  from registry_ok_cleanup[OF this, of e] e show ?thesis
    by (simp add: begin_run_def Let_def registry_ok_def)
qed

lemma registry_ok_end_run: "registry_ok s \<Longrightarrow> registry_ok (end_run s)"
proof -
  assume ok: "registry_ok s"
  have "\<forall>e \<in> set (tl (effectStack s)). e < length (effects s)"
    using ok by (cases "effectStack s") (auto simp: registry_ok_def)
  with ok show ?thesis by (simp add: registry_ok_def end_run_def Let_def)
qed

lemma registry_ok_stop_prim:
  assumes ok: "registry_ok s"
  shows "registry_ok (set_inactive e (cleanup e s))"
proof (rule registry_ok_frame[OF registry_ok_cleanup[OF ok, of e]])
  fix e' assume "e' < length (effects (cleanup e s))"
  then show "deps (effects (set_inactive e (cleanup e s)) ! e') = deps (effects (cleanup e s) ! e')"
    by (cases "e' = e") (simp_all add: set_inactive_def)
qed simp_all

lemma stable_registry_ok: "stable registry_ok"
  unfolding stable_def
proof (intro conjI allI impI)
  fix s f lz cp sc os assume "registry_ok s"
  then show "registry_ok (new_effect f lz cp sc os s)"
    by (auto simp: registry_ok_def new_effect_def nth_append less_SucI)
qed (auto simp: registry_ok_track registry_ok_begin_run registry_ok_end_run
       registry_ok_stop_prim
       intro: registry_ok_frame simp: other_prims emit_def heap_store_def)

theorem registry_ok_exec: "exec n tk init = Some (r, s) \<Longrightarrow> registry_ok s"
  by (rule stable_exec[OF stable_registry_ok registry_ok_init])

section \<open>Unfolding an execution step by step\<close>

lemma exec_TProg: "exec (Suc n) (TProg p) = run_prog (exec n) p"
  by (simp add: exec_body_def fun_eq_iff)

lemma exec_TTrigger: "exec (Suc n) (TTrigger t k ty) = trigger (exec n) t k ty"
  by (simp add: exec_body_def fun_eq_iff)

lemma run_prog_simps:
  "run_prog rec (Ret v) = ret v"
  "run_prog rec (Throw v) = throw (Exn v)"
  "run_prog rec (Mark n k) = bnd (upd (emit (EMark n))) (\<lambda>u. rec (TProg k))"
  "run_prog rec (CallRef v kn) = (\<lambda>s. case ref v s of (r, s1) \<Rightarrow> rec (TProg (kn r)) s1)"
  "run_prog rec (RefGet r kv) = (\<lambda>s.
          if r < length (refs s) then (case ref_get r s of (v, s1) \<Rightarrow> rec (TProg (kv v)) s1)
          else throw TypeError s)"
  "run_prog rec (RefSet r v k) = (\<lambda>s.
          if r < length (refs s) then bnd (ref_set rec r v) (\<lambda>u. rec (TProg k)) s
          else throw TypeError s)"
  "run_prog rec (CallWatch src cb opts kn) = bnd (watch rec src cb opts) (\<lambda>w. rec (TProg (kn w)))"
  by (simp_all add: run_prog_def)

lemma sc_watch_unfold:
  "run (Suc (Suc (Suc (Suc (Suc n))))) (sc_watch cb k) init =
     (case exec (Suc (Suc n)) (TProg (cb 0 (VNum 9) (VNum 1))) (watch_mid cb) of
        None \<Rightarrow> None
      | Some (Normal v, s1) \<Rightarrow>
          exec (Suc n) (TProg k) (emit (EMark 0) (set_oldValue 0 (VNum 9) s1))
      | Some (Thrown x, s1) \<Rightarrow> Some (Thrown x, s1))"
  by (simp add: run_def sc_watch_def watch_mid_def exec_TProg exec_TTrigger run_prog_simps init_def
      ref_def watch_def effect_def new_effect_def effectFn_def begin_run_def cleanup_def
      end_run_def new_watcher_def source_getter_def ref_get_def track_def emit_def
      set_oldValue_def ref_set_def ref_store_def strict_eq_def trigger_def collect_def
      addEffects_def set_add_def depsMap_get_def target_isArray_def replay_def
      run_scheduler_def job_def is_object_def
      bnd_def ret_def upd_def try_finally_def Let_def
      dep_delete_def del: exec.simps cong: if_cong
      split: option.splits outcome.splits prod.splits)

section \<open>Reads of a computed ref\<close>

lemma stable_computed_exists: "stable (\<lambda>s. c < length (computeds s))"
  unfolding stable_def by (auto simp: other_prims heap_store_def emit_def)

lemma computeds_track [simp]: "computeds ((track t k ^^ j) s) = computeds s"
  by (induction j) simp_all

lemma run_count_track_pow [simp]: "run_count e ((track t k ^^ j) s) = run_count e s"
  by (induction j) simp_all

lemma dep_of_track_active:
  assumes "activeEffect s = Some a"
  shows "a \<in> set (dep_of (track t k s) t k)"
  using assms
  by (auto simp: track_def Let_def dep_of_def depsMap_get_def emit_def update_conv'
        split: option.splits)

lemma computed_get_clean:
  "\<not> dirty (computeds s ! c) \<Longrightarrow>
     computed_get rec c s
       = Some (Normal (c_value (computeds s ! c)), track (TComputed c) (Name ''value'') s)"
  by (simp add: computed_get_def bnd_def ret_def Let_def)

lemma computed_get_dirty:
  assumes "dirty (computeds s ! c)" and "computed_get rec c s = Some (Normal v, s')"
  shows "\<exists>w s1. effectFn rec (c_effect (computeds s ! c)) s = Some (Normal w, s1)
     \<and> s' = track (TComputed c) (Name ''value'') (set_dirty c False (set_c_value c w s1))
     \<and> v = c_value (computeds s' ! c)"
  using assms
  by (auto simp: computed_get_def bnd_def ret_def upd_def Let_def
        split: option.splits outcome.splits)

section \<open>The replays of a trigger\<close>

lemma options_cleanup [simp]:
  "opt_scheduler (effects (cleanup e' s) ! e) = opt_scheduler (effects s ! e)"
  "opt_computed (effects (cleanup e' s) ! e) = opt_computed (effects s ! e)"
  by (cases "e' < length (effects s)"; cases "e = e'";
      simp add: targetMap_cleanup_effects list_update_beyond)+

lemma options_track [simp]:
  "opt_scheduler (effects (track t k s) ! e) = opt_scheduler (effects s ! e)"
  "opt_computed (effects (track t k s) ! e) = opt_computed (effects s ! e)"
proof -
  have "opt_scheduler (effects (track t k s) ! e) = opt_scheduler (effects s ! e)
      \<and> opt_computed (effects (track t k s) ! e) = opt_computed (effects s ! e)"
  proof (cases "activeEffect s")
    case None
    then show ?thesis by (simp add: track_def Let_def emit_def)
  next
    case (Some a)
    then show ?thesis
      by (cases "a < length (effects s)"; cases "e = a")
         (simp_all add: track_def Let_def emit_def list_update_beyond)
  qed
  then show "opt_scheduler (effects (track t k s) ! e) = opt_scheduler (effects s ! e)"
    and "opt_computed (effects (track t k s) ! e) = opt_computed (effects s ! e)" by simp_all
qed

lemma stable_same_options: "stable (same_options s e)"
  unfolding stable_def same_options_def
  by (auto simp: other_prims begin_run_def Let_def set_inactive_def nth_append nth_list_update)

lemma replays_Nil [simp]: "replays s [] tr = (tr = [])"
  by (auto simp: replays_def)

lemma replays_Cons:
  assumes "replays s l tr"
  shows "replays s (e # l) (starts s e # xs @ tr)"
proof -
  from assms obtain segs where sg: "length segs = length l" "tr = concat segs"
    "\<forall>i < length l. \<exists>ys. segs ! i = starts s (l ! i) # ys"
    by (auto simp: replays_def)
  let ?segs = "(starts s e # xs) # segs"
  have "\<forall>i < length (e # l). \<exists>ys. ?segs ! i = starts s ((e # l) ! i) # ys"
  proof (intro allI impI)
    fix i assume "i < length (e # l)"
    then show "\<exists>ys. ?segs ! i = starts s ((e # l) ! i) # ys"
      using sg(3) by (cases i) auto
  qed
  with sg(1,2) show ?thesis
    unfolding replays_def by (intro exI[of _ ?segs]) simp
qed

lemma replays_starts_cong:
  assumes "\<forall>e \<in> set l. starts s1 e = starts s e"
  shows "replays s1 l tr = replays s l tr"
  using assms unfolding replays_def by (auto simp: all_set_conv_all_nth)

lemma starts_same_options: "same_options s e s1 \<Longrightarrow> starts s1 e = starts s e"
  by (simp add: starts_def same_options_def)

text \<open>A replay that ends has logged its first step right after the trace it started from.\<close>

lemma replay_trace:
  assumes e: "e < length (effects s)" and run: "replay (exec n) e s = Some (r, s1)"
  shows "\<exists>xs. trace s1 = trace s @ starts s e # xs"
proof (cases "opt_scheduler (effects s ! e) = NoSched")
  case True
  let ?I = "\<lambda>s'. \<exists>xs. trace s' = (trace s @ [ERun e]) @ xs"
  have st: "stable ?I" by (rule stable_trace_prefix)
  from True run have ef: "effectFn (exec n) e s = Some (r, s1)" by (simp add: replay_def)
  have "post (effectFn (exec n) e s) (\<lambda>r. ?I)"
    unfolding effectFn_def using e
    by (auto intro!: post_exec[OF st] stable_end_run[OF st])
  with ef have "?I s1" by simp
  with True show ?thesis by (simp add: starts_def)
next
  case False
  let ?I = "\<lambda>s'. \<exists>xs. trace s' = (trace s @ [ESched e]) @ xs"
  have st: "stable ?I" by (rule stable_trace_prefix)
  from False run have rs: "run_scheduler (exec n) (opt_scheduler (effects s ! e)) e
      (emit (ESched e) s) = Some (r, s1)"
    by (cases "opt_scheduler (effects s ! e)") (simp_all add: replay_def)
  have "post (run_scheduler (exec n) (opt_scheduler (effects s ! e)) e (emit (ESched e) s))
          (\<lambda>r. ?I)"
    by (rule post_run_scheduler[OF st post_exec[OF st]]) simp_all
  with rs have "?I s1" by simp
  with False show ?thesis by (cases "opt_scheduler (effects s ! e)") (simp_all add: starts_def)
qed

lemma replay_same_options:
  assumes "same_options s0 e' s" and "replay (exec n) e s = Some (r, s1)"
  shows "same_options s0 e' s1"
proof -
  have "post (replay (exec n) e s) (\<lambda>r. same_options s0 e')"
    by (rule post_replay[OF stable_same_options post_exec[OF stable_same_options] assms(1)])
  with assms(2) show ?thesis by simp
qed

text \<open>
  The replays of a list: those of a prefix have been started, one after the other; the
  whole list when the result is a value, up to the one that threw otherwise.
\<close>

lemma replay_all_trace:
  assumes "replay_all (exec n) l s = Some (r, s')"
    and "\<forall>e \<in> set l. same_options s0 e s"
  shows "\<exists>ran rest tr. l = ran @ rest
           \<and> (case r of Normal v \<Rightarrow> rest = [] | Thrown x \<Rightarrow> ran \<noteq> [])
           \<and> trace s' = trace s @ tr \<and> replays s0 ran tr"
  using assms
proof (induction l arbitrary: s)
  case Nil
  then show ?case by (auto simp: ret_def)
next
  case (Cons e l)
  from Cons.prems(2) have so: "same_options s0 e s" by simp
  then have e: "e < length (effects s)" by (simp add: same_options_def)
  from Cons.prems(1) obtain r1 s1 where r1: "replay (exec n) e s = Some (r1, s1)"
    by (cases "replay (exec n) e s") (auto simp: bnd_def)
  from replay_trace[OF e r1] obtain xs where xs: "trace s1 = trace s @ starts s e # xs" by blast
  from starts_same_options[OF so] have se: "starts s e = starts s0 e" .
  show ?case
  proof (cases r1)
    case (Thrown x)
    with Cons.prems(1) r1 have "r = Thrown x" "s' = s1" by (simp_all add: bnd_def)
    moreover have "replays s0 [e] (starts s0 e # xs @ [])"
      by (rule replays_Cons) simp
    ultimately show ?thesis
      using xs se by (intro exI[of _ "[e]"] exI[of _ l] exI[of _ "starts s0 e # xs"]) simp
  next
    case (Normal v)
    with Cons.prems(1) r1 have rest: "replay_all (exec n) l s1 = Some (r, s')"
      by (simp add: bnd_def)
    have "\<forall>e' \<in> set l. same_options s0 e' s1"
      using Cons.prems(2) replay_same_options[OF _ r1] by auto
    from Cons.IH[OF rest this] obtain dn rs tr where
      ih: "l = dn @ rs" "case r of Normal v \<Rightarrow> rs = [] | Thrown x \<Rightarrow> dn \<noteq> []"
        "trace s' = trace s1 @ tr" "replays s0 dn tr" by blast
    from replays_Cons[OF ih(4), of e xs] have "replays s0 (e # dn) (starts s0 e # xs @ tr)" .
    with ih(1,2,3) xs se show ?thesis
      by (intro exI[of _ "e # dn"] exI[of _ rs] exI[of _ "starts s0 e # xs @ tr"])
         (auto split: outcome.splits)
  qed
qed

lemma same_options_refl: "e < length (effects s) \<Longrightarrow> same_options s e s"
  by (simp add: same_options_def)

lemma same_options_emit [simp]: "same_options s0 e (emit ev s) = same_options s0 e s"
  by (simp add: same_options_def emit_def)

lemma same_options_heap_store [simp]:
  "same_options s0 e (heap_store a ob s) = same_options s0 e s"
  by (simp add: same_options_def heap_store_def)

lemma registered_exists: "registry_ok s \<Longrightarrow> registered e s \<Longrightarrow> e < length (effects s)"
  by (auto simp: registry_ok_def registered_def)

lemma notified_exists:
  "registry_ok s \<Longrightarrow> notified s t k ty = Some l \<Longrightarrow> e \<in> set l \<Longrightarrow> e < length (effects s)"
  using notified_registered registered_exists by blast

text \<open>What a \<open>trigger\<close> call that ends has logged.\<close>

lemma trigger_trace:
  assumes ok: "registry_ok s" and run: "trigger (exec n) t k ty s = Some (r, s')"
    and l: "notified s t k ty = Some l"
  shows "\<exists>ran rest tr. l = ran @ rest
           \<and> (case r of Normal v \<Rightarrow> rest = [] | Thrown x \<Rightarrow> ran \<noteq> [])
           \<and> trace s' = trace s @ ETrigger t k ty # tr \<and> replays s ran tr"
proof -
  from run l have ra: "replay_all (exec n) l (emit (ETrigger t k ty) s) = Some (r, s')"
    by (simp add: trigger_notified)
  have "\<forall>e \<in> set l. same_options s e (emit (ETrigger t k ty) s)"
    using notified_exists[OF ok l] by (simp add: same_options_refl)
  from replay_all_trace[OF ra this] show ?thesis by simp
qed

lemma trigger_no_list:
  assumes "trigger rec t k ty s = Some (r, s')" and "notified s t k ty = None"
  shows "r = Thrown TypeError \<and> s' = emit (ETrigger t k ty) s"
  using assms by (simp add: trigger_notified throw_def)

section \<open>Writes through the set handler\<close>




lemma hadKey_length [simp]: "isArray ob \<Longrightarrow> hadKey ob (Name ''length'') = Some False"
  by (simp add: hadKey_def num_lt_def)




section \<open>The claims\<close>

subsection \<open>C1: writes through a reactive container\<close>



text \<open>
  A replay that throws ends the loop: effect 0 throws when it reads 2, the write \<open>c.k = 2\<close>
  throws, and effect 1, registered on \<open>c.k\<close> after effect 0, is not run.
\<close>

theorem throwing_dependent_ends_replays:
  "dep_of (final_state 10 sc_throwing_reader) (TObj 0) (Name ''k'') = [0, 1]
   \<and> map_option fst (handler_set (exec 5) 0 (Name ''k'') (VNum 2) (final_state 10 sc_throwing_reader))
     = Some (Thrown (Exn (VStr ''boom'')))
   \<and> trace (after_set 5 0 (Name ''k'') (VNum 2) (final_state 10 sc_throwing_reader))
     = [ERun 0, ETrack (TObj 0) (Name ''k''), ERun 1, ETrack (TObj 0) (Name ''k''),
        ETrigger (TObj 0) (Name ''k'') TSet, ERun 0, ETrack (TObj 0) (Name ''k'')]"
  by code_simp


subsection \<open>C5: derived effects are replayed first\<close>

text \<open>
  Claim C5 at \<open>x = ref(1); c1 = computed(() => x.value); c2 = computed(() => x.value);
  effect(() => { x.value; mark(c1.value); mark(c2.value) }); x.value = 2\<close>. The effects
  0 and 1 back \<open>c1\<close> and \<open>c2\<close>, the plain effect 2 reads \<open>x\<close>, \<open>c1\<close> and \<open>c2\<close>, and the write
  notifies all three, the derived ones first. Before the write the plain effect has run
  once (\<open>EMark 1, EMark 1\<close>). The scheduler of effect 0 marks \<open>c1\<close> dirty and triggers on
  \<open>c1\<close> at once, and this nested \<open>trigger\<close> runs the plain effect 2 (\<open>ERun 2\<close>) before the
  derived effect 1 has been replayed (\<open>ESched 1\<close>): in that run \<open>c1\<close> is recomputed and \<open>c2\<close>,
  not yet dirty, gives its stale value (\<open>EMark 2, EMark 1\<close>). The plain effect runs three
  times for the one write.
\<close>

theorem plain_effect_runs_between_derived:
  "notified (final_state 20 (sc_two_computed (Ret VUndefined))) (TRef 0) (Name ''value'') TSet
     = Some [0, 1, 2]
   \<and> map opt_computed (effects (final_state 20 (sc_two_computed (Ret VUndefined))))
     = [True, True, False]
   \<and> trace (final_state 20 (sc_two_computed (Ret VUndefined)))
     = [ERun 2, ETrack (TRef 0) (Name ''value''),
        ERun 0, ETrack (TRef 0) (Name ''value''), ETrack (TComputed 0) (Name ''value''),
        ERun 1, ETrack (TRef 0) (Name ''value''), ETrack (TComputed 1) (Name ''value''),
        EMark 1, EMark 1]
   \<and> trace (final_state 20 (sc_two_computed (RefSet 0 (VNum 2) (Ret VUndefined))))
     = trace (final_state 20 (sc_two_computed (Ret VUndefined)))
       @ [ETrigger (TRef 0) (Name ''value'') TSet,
          ESched 0, ETrigger (TComputed 0) (Name ''value'') TSet,
          ERun 2, ETrack (TRef 0) (Name ''value''),
          ERun 0, ETrack (TRef 0) (Name ''value''), ETrack (TComputed 0) (Name ''value''),
          ETrack (TComputed 1) (Name ''value''), EMark 2, EMark 1,
          ESched 1, ETrigger (TComputed 1) (Name ''value'') TSet,
          ERun 2, ETrack (TRef 0) (Name ''value''), ETrack (TComputed 0) (Name ''value''),
          ERun 1, ETrack (TRef 0) (Name ''value''), ETrack (TComputed 1) (Name ''value''),
          EMark 2, EMark 2,
          ERun 2, ETrack (TRef 0) (Name ''value''), ETrack (TComputed 0) (Name ''value''),
          ETrack (TComputed 1) (Name ''value''), EMark 2, EMark 2]"
  by code_simp

text \<open>
  What \<open>trigger\<close> does establish. A \<open>trigger\<close> call that ends, in a state with sound
  bookkeeping, has logged itself and then started the replays of the notified effect
  functions one after the other, the derived ones (option \<open>computed\<close>) before the plain
  ones: all of them when it returns, and up to the one that threw otherwise. The
  segment of a derived effect function holds whatever its scheduler did, a \<open>trigger\<close> of
  its own included. With a symbol among the keys of an array's dependency map, a
  \<open>trigger\<close> on \<open>length\<close> throws a \<open>TypeError\<close> before any replay.
\<close>

theorem trigger_derived_first:
  assumes ok: "registry_ok s" and run: "trigger (exec n) t k ty s = Some (r, s')"
  shows "case notified s t k ty of
           None \<Rightarrow> r = Thrown TypeError \<and> s' = emit (ETrigger t k ty) s
         | Some l \<Rightarrow>
             (\<exists>cs es ran rest tr. l = cs @ es \<and> distinct l
                \<and> (\<forall>e \<in> set cs. opt_computed (effects s ! e))
                \<and> (\<forall>e \<in> set es. \<not> opt_computed (effects s ! e))
                \<and> l = ran @ rest
                \<and> (case r of Normal v \<Rightarrow> rest = [] | Thrown x \<Rightarrow> ran \<noteq> [])
                \<and> trace s' = trace s @ ETrigger t k ty # tr
                \<and> replays s ran tr)"
proof (cases "notified s t k ty")
  case None
  with trigger_no_list[OF run None] show ?thesis by simp
next
  case (Some l)
  from notified_split[OF Some] obtain cs es where sp: "l = cs @ es" "distinct l"
    "\<forall>e \<in> set cs. opt_computed (effects s ! e)"
    "\<forall>e \<in> set es. \<not> opt_computed (effects s ! e)" by blast
  from trigger_trace[OF ok run Some] obtain dn rs tr where
    d: "l = dn @ rs" "case r of Normal v \<Rightarrow> rs = [] | Thrown x \<Rightarrow> dn \<noteq> []"
      "trace s' = trace s @ ETrigger t k ty # tr" "replays s dn tr" by blast
  from sp d have "\<exists>cs es ran rest tr. l = cs @ es \<and> distinct l
                \<and> (\<forall>e \<in> set cs. opt_computed (effects s ! e))
                \<and> (\<forall>e \<in> set es. \<not> opt_computed (effects s ! e))
                \<and> l = ran @ rest
                \<and> (case r of Normal v \<Rightarrow> rest = [] | Thrown x \<Rightarrow> ran \<noteq> [])
                \<and> trace s' = trace s @ ETrigger t k ty # tr
                \<and> replays s ran tr" by blast
  with Some show ?thesis by simp
qed

text \<open>
  An instance: a ref read by a plain effect (0) and by a computed ref (effect 1). The
  scheduler of the computed ref is called first, then the plain effect is run.
\<close>

theorem trigger_derived_first_witness:
  "registry_ok (final_state 10 sc_mixed)
   \<and> dep_of (final_state 10 sc_mixed) (TRef 0) (Name ''value'') = [0, 1]
   \<and> \<not> opt_computed (effects (final_state 10 sc_mixed) ! 0)
   \<and> opt_computed (effects (final_state 10 sc_mixed) ! 1)
   \<and> notified (final_state 10 sc_mixed) (TRef 0) (Name ''value'') TSet = Some [1, 0]
   \<and> trigger (exec 5) (TRef 0) (Name ''value'') TSet (final_state 10 sc_mixed)
       = Some (Normal VUndefined,
               after_trigger 5 (TRef 0) (Name ''value'') TSet (final_state 10 sc_mixed))
   \<and> (\<exists>tr. trace (after_trigger 5 (TRef 0) (Name ''value'') TSet (final_state 10 sc_mixed))
               = trace (final_state 10 sc_mixed) @ ETrigger (TRef 0) (Name ''value'') TSet # tr
         \<and> replays (final_state 10 sc_mixed) [1, 0] tr)
   \<and> trace (after_trigger 5 (TRef 0) (Name ''value'') TSet (final_state 10 sc_mixed))
       = [ERun 0, ETrack (TRef 0) (Name ''value''), ERun 1, ETrack (TRef 0) (Name ''value''),
          ETrack (TComputed 0) (Name ''value''),
          ETrigger (TRef 0) (Name ''value'') TSet,
          ESched 1, ETrigger (TComputed 0) (Name ''value'') TSet,
          ERun 0, ETrack (TRef 0) (Name ''value'')]"
proof -
  define s where "s = final_state 10 sc_mixed"
  define s1 where "s1 = after_trigger 5 (TRef 0) (Name ''value'') TSet s"
  have ok: "registry_ok s" unfolding s_def by code_simp
  have d: "dep_of s (TRef 0) (Name ''value'') = [0, 1]" unfolding s_def by code_simp
  have c0: "\<not> opt_computed (effects s ! 0)" unfolding s_def by code_simp
  have c1: "opt_computed (effects s ! 1)" unfolding s_def by code_simp
  have n: "notified s (TRef 0) (Name ''value'') TSet = Some [1, 0]" unfolding s_def by code_simp
  have nn: "trigger (exec 5) (TRef 0) (Name ''value'') TSet s \<noteq> None"
    unfolding s_def by code_simp
  have o: "map_option fst (trigger (exec 5) (TRef 0) (Name ''value'') TSet s)
      = Some (Normal VUndefined)" unfolding s_def by code_simp
  from nn o have run: "trigger (exec 5) (TRef 0) (Name ''value'') TSet s
      = Some (Normal VUndefined, s1)"
    by (cases "trigger (exec 5) (TRef 0) (Name ''value'') TSet s")
       (auto simp: s1_def after_trigger_def)
  have t: "trace s1
       = [ERun 0, ETrack (TRef 0) (Name ''value''), ERun 1, ETrack (TRef 0) (Name ''value''),
          ETrack (TComputed 0) (Name ''value''),
          ETrigger (TRef 0) (Name ''value'') TSet,
          ESched 1, ETrigger (TComputed 0) (Name ''value'') TSet,
          ERun 0, ETrack (TRef 0) (Name ''value'')]"
    unfolding s1_def s_def by code_simp
  from trigger_derived_first[OF ok run] n
  obtain dn rs tr where "[1, 0] = dn @ rs" "rs = []"
    "trace s1 = trace s @ ETrigger (TRef 0) (Name ''value'') TSet # tr" "replays s dn tr"
    by auto
  then have "\<exists>tr. trace s1 = trace s @ ETrigger (TRef 0) (Name ''value'') TSet # tr
      \<and> replays s [1, 0] tr" by auto
  with ok d c0 c1 n run t show ?thesis unfolding s1_def s_def by blast
qed

subsection \<open>C6: arrays\<close>




subsection \<open>C3: a ref holding NaN\<close>

text \<open>
  Claim C3 at \<open>r = ref(NaN); effect(() => r.value); r.value = NaN\<close>: the setter
  compares with \<open>!==\<close> alone, so the write triggers and the effect runs a second time.
\<close>

theorem ref_nan_retriggers:
  "map_option (\<lambda>(r, s). trace s) (run 10 sc_ref_nan init)
   = Some [ERun 0, ETrack (TRef 0) (Name ''value''), ETrigger (TRef 0) (Name ''value'') TSet,
           ERun 0, ETrack (TRef 0) (Name ''value'')]"
  by code_simp

subsection \<open>C8: reactive\<close>



subsection \<open>C10: the value of a ref is not wrapped\<close>



subsection \<open>C2: reads of a computed ref\<close>

text \<open>
  Claim C2, for the reads that return. A read of \<open>c.value\<close> that returns \<open>v\<close>: when \<open>c\<close>
  was dirty it called the runner of the getter once, the runner returned \<open>v\<close>, and \<open>v\<close> was
  stored and the flag cleared; when \<open>c\<close> was not dirty it returned the stored value and
  ran nothing. In both cases the last step is \<open>track(c, 'value')\<close>, so the running effect
  function, if any, is a member of the dependency set of \<open>c\<close>. Afterwards \<open>c\<close> is not
  dirty, and any number of further reads in a row return \<open>v\<close> and do nothing but \<open>track\<close>:
  the \<open>j + 1\<close>-th of them gives the same result under every interpreter \<open>rec\<close>, also one
  that never returns, so the getter is not called.
\<close>

theorem computed_get_memoizes:
  assumes c: "c < length (computeds s)"
    and rd: "computed_get (exec n) c s = Some (Normal v, s')"
  shows "(if dirty (computeds s ! c)
          then \<exists>s1. effectFn (exec n) (c_effect (computeds s ! c)) s = Some (Normal v, s1)
                 \<and> s' = track (TComputed c) (Name ''value'')
                          (set_dirty c False (set_c_value c v s1))
          else v = c_value (computeds s ! c) \<and> s' = track (TComputed c) (Name ''value'') s)
     \<and> \<not> dirty (computeds s' ! c) \<and> c_value (computeds s' ! c) = v
     \<and> (\<forall>a. activeEffect s' = Some a \<longrightarrow> a \<in> set (dep_of s' (TComputed c) (Name ''value'')))
     \<and> (\<forall>j rec. computed_get rec c ((track (TComputed c) (Name ''value'') ^^ j) s')
           = Some (Normal v, (track (TComputed c) (Name ''value'') ^^ Suc j) s'))"
proof -
  have shape: "(if dirty (computeds s ! c)
          then \<exists>s1. effectFn (exec n) (c_effect (computeds s ! c)) s = Some (Normal v, s1)
                 \<and> s' = track (TComputed c) (Name ''value'')
                          (set_dirty c False (set_c_value c v s1))
          else v = c_value (computeds s ! c) \<and> s' = track (TComputed c) (Name ''value'') s)
     \<and> \<not> dirty (computeds s' ! c) \<and> c_value (computeds s' ! c) = v
     \<and> (\<exists>s0. s' = track (TComputed c) (Name ''value'') s0)"
  proof (cases "dirty (computeds s ! c)")
    case False
    with rd computed_get_clean[OF False, of "exec n"] show ?thesis by auto
  next
    case True
    from computed_get_dirty[OF True rd] obtain w s1 where
      run: "effectFn (exec n) (c_effect (computeds s ! c)) s = Some (Normal w, s1)"
      and s': "s' = track (TComputed c) (Name ''value'') (set_dirty c False (set_c_value c w s1))"
      and v: "v = c_value (computeds s' ! c)" by blast
    have "post (effectFn (exec n) (c_effect (computeds s ! c)) s) (\<lambda>r s. c < length (computeds s))"
      by (rule post_effectFn[OF stable_computed_exists post_exec[OF stable_computed_exists] c])
    with run have c1: "c < length (computeds s1)" by simp
    with s' v have "v = w" "\<not> dirty (computeds s' ! c)"
      by (simp_all add: set_dirty_def set_c_value_def)
    with True run s' v show ?thesis by auto
  qed
  then obtain s0 where s0: "s' = track (TComputed c) (Name ''value'') s0" by blast
  have reg: "\<forall>a. activeEffect s' = Some a \<longrightarrow> a \<in> set (dep_of s' (TComputed c) (Name ''value''))"
    unfolding s0 using dep_of_track_active[of s0 _ "TComputed c" "Name ''value''"] by simp
  have again: "computed_get rec c ((track (TComputed c) (Name ''value'') ^^ j) s')
           = Some (Normal v, (track (TComputed c) (Name ''value'') ^^ Suc j) s')" for j rec
    using computed_get_clean[of "(track (TComputed c) (Name ''value'') ^^ j) s'" c rec] shape
    by simp
  from shape reg again show ?thesis by blast
qed

text \<open>
  An instance: inside a run of the effect function 1, the first read of a computed ref
  over \<open>x = ref(1)\<close> returns 1, registers effect 1 on the computed ref, and the next read
  returns 1 without any fuel.
\<close>

theorem computed_get_memoizes_witness:
  "0 < length (computeds (begin_run 1 (final_state 10 sc_computed_read)))
   \<and> dirty (computeds (begin_run 1 (final_state 10 sc_computed_read)) ! 0)
   \<and> activeEffect (begin_run 1 (final_state 10 sc_computed_read)) = Some 1
   \<and> computed_get (exec 5) 0 (begin_run 1 (final_state 10 sc_computed_read))
       = Some (Normal (VNum 1), after_read 5 0 (begin_run 1 (final_state 10 sc_computed_read)))
   \<and> \<not> dirty (computeds (after_read 5 0 (begin_run 1 (final_state 10 sc_computed_read))) ! 0)
   \<and> c_value (computeds (after_read 5 0 (begin_run 1 (final_state 10 sc_computed_read))) ! 0)
       = VNum 1
   \<and> 1 \<in> set (dep_of (after_read 5 0 (begin_run 1 (final_state 10 sc_computed_read)))
                (TComputed 0) (Name ''value''))
   \<and> computed_get (exec 0) 0 (after_read 5 0 (begin_run 1 (final_state 10 sc_computed_read)))
       = Some (Normal (VNum 1), track (TComputed 0) (Name ''value'')
                 (after_read 5 0 (begin_run 1 (final_state 10 sc_computed_read))))"
proof -
  define s where "s = begin_run 1 (final_state 10 sc_computed_read)"
  define s' where "s' = after_read 5 0 s"
  have c: "0 < length (computeds s)" unfolding s_def by code_simp
  have dt: "dirty (computeds s ! 0)" unfolding s_def by code_simp
  have ae: "activeEffect s = Some 1" unfolding s_def by code_simp
  have d: "computed_get (exec 5) 0 s \<noteq> None" unfolding s_def by code_simp
  have o: "map_option fst (computed_get (exec 5) 0 s) = Some (Normal (VNum 1))"
    unfolding s_def by code_simp
  from d o have rd: "computed_get (exec 5) 0 s = Some (Normal (VNum 1), s')"
    by (cases "computed_get (exec 5) 0 s") (auto simp: s'_def after_read_def)
  have ae': "activeEffect s' = Some 1" unfolding s'_def s_def by code_simp
  note inst = computed_get_memoizes[OF c rd]
  from inst have a: "\<not> dirty (computeds s' ! 0)" "c_value (computeds s' ! 0) = VNum 1"
    by blast+
  from inst ae' have b: "1 \<in> set (dep_of s' (TComputed 0) (Name ''value''))" by blast
  from inst have "\<forall>j rec. computed_get rec 0 ((track (TComputed 0) (Name ''value'') ^^ j) s')
           = Some (Normal (VNum 1), (track (TComputed 0) (Name ''value'') ^^ Suc j) s')"
    by blast
  from this[rule_format, of "exec 0" 0]
  have n: "computed_get (exec 0) 0 s'
       = Some (Normal (VNum 1), track (TComputed 0) (Name ''value'') s')" by simp
  from c dt ae rd a b n show ?thesis unfolding s'_def s_def by blast
qed

text \<open>
  Claim C2 as stated fails for a getter that throws. After \<open>x.value = 0\<close> has made the
  computed ref dirty (the \<open>ETrigger\<close> on \<open>TComputed 0\<close>), two reads of \<open>c.value\<close> follow with
  no write in between: the getter runs in both (two \<open>ERun 0\<close>), both reads throw, the
  flag stays set, and neither read reaches \<open>track(c, 'value')\<close>.
\<close>

theorem throwing_getter_reruns:
  "map_option fst (computed_get (exec 5) 0 (final_state 10 sc_computed_guard))
     = Some (Thrown (Exn (VStr ''bad'')))
   \<and> map_option fst (computed_get (exec 5) 0 (after_read 5 0 (final_state 10 sc_computed_guard)))
     = Some (Thrown (Exn (VStr ''bad'')))
   \<and> trace (after_read 5 0 (after_read 5 0 (final_state 10 sc_computed_guard)))
     = [ERun 0, ETrack (TRef 0) (Name ''value''), ETrack (TComputed 0) (Name ''value''),
        ETrigger (TRef 0) (Name ''value'') TSet, ESched 0,
        ETrigger (TComputed 0) (Name ''value'') TSet,
        ERun 0, ETrack (TRef 0) (Name ''value''),
        ERun 0, ETrack (TRef 0) (Name ''value'')]"
  by code_simp

subsection \<open>C4: stop\<close>

text \<open>
  Claim C4 at \<open>c = reactive({k: 1}); e1 = effect(() => { if (c.k === 2) stop(e2) });
  e2 = effect(() => c.k, {onStop: () => {}}); c.k = 2; mark(0); c.k = 3\<close>. Effects 0 and
  1 both read \<open>c.k\<close>. The write \<open>c.k = 2\<close> collects both for replay; effect 0 runs first
  and stops effect 1 (\<open>EOnStop 1\<close>); the replay goes on to run the stopped effect 1, since
  the runner never reads \<open>active\<close>, and the run registers it again. The later write
  \<open>c.k = 3\<close> (after \<open>EMark 0\<close>) therefore runs effect 1 once more, and it ends inactive and
  a member of the dependency set of \<open>c.k\<close>.
\<close>

theorem stopped_effect_replayed:
  "\<not> active (effects (final_state 12 sc_stop_sibling) ! 1)
   \<and> dep_of (final_state 12 sc_stop_sibling) (TObj 0) (Name ''k'') = [0, 1]
   \<and> trace (final_state 12 sc_stop_sibling)
     = [ERun 0, ETrack (TObj 0) (Name ''k''), ERun 1, ETrack (TObj 0) (Name ''k''),
        ETrigger (TObj 0) (Name ''k'') TSet,
        ERun 0, ETrack (TObj 0) (Name ''k''), EOnStop 1,
        ERun 1, ETrack (TObj 0) (Name ''k''),
        EMark 0,
        ETrigger (TObj 0) (Name ''k'') TSet,
        ERun 0, ETrack (TObj 0) (Name ''k''), ERun 1, ETrack (TObj 0) (Name ''k'')]"
  by code_simp

text \<open>
  What \<open>stop\<close> does establish. Let \<open>stop(e)\<close> be called on an active effect function
  \<open>e\<close> that is not running, in a state with sound bookkeeping, and let \<open>e\<close> not be run by
  its \<open>onStop\<close> hook. When \<open>stop\<close> returns, \<open>e\<close> is inactive and a member of no dependency
  set, and its hook, if it has one, has been called. Through every later execution, for
  as long as \<open>e\<close> has not been run again, \<open>e\<close> stays inactive and in no dependency set, and
  no \<open>trigger\<close>, on any target, key and type, has \<open>e\<close> among the effect functions it
  replays.
\<close>

theorem stop_detaches:
  assumes ok: "registry_ok s" and e: "e < length (effects s)" and act: "active (effects s ! e)"
    and idle: "e \<notin> set (effectStack s)"
    and st: "stop (exec n) e s = Some (r, s1)"
    and q1: "run_count e s1 = run_count e s"
  shows "stopped e s1 \<and> detached e s1
     \<and> (opt_onStop (effects s ! e) \<noteq> None \<longrightarrow> EOnStop e \<in> set (trace s1))
     \<and> (\<forall>m tk r2 s2. exec m tk s1 = Some (r2, s2) \<longrightarrow> run_count e s2 = run_count e s
           \<longrightarrow> stopped e s2 \<and> detached e s2
               \<and> (\<forall>t k ty l. notified s2 t k ty = Some l \<longrightarrow> e \<notin> set l))"
proof -
  define s0 where "s0 = set_inactive e (cleanup e s)"
  define c where "c = run_count e s"
  note start = stop_start[OF ok e idle, folded s0_def]
  have q0: "quiet_detached e c s0" using start by (simp add: quiet_detached_def c_def)
  have base: "stopped e s1 \<and> quiet_detached e c s1
     \<and> (opt_onStop (effects s ! e) \<noteq> None \<longrightarrow> EOnStop e \<in> set (trace s1))"
    using stop_cases[OF st e act, folded s0_def]
  proof (elim disjE conjE exE)
    assume "s1 = s0" "opt_onStop (effects s ! e) = None"
    then show ?thesis using start q0 by simp
  next
    fix h r' assume hk: "opt_onStop (effects s ! e) = Some h"
      and run: "exec n (TProg h) (emit (EOnStop e) s0) = Some (r', s1)"
    have a: "stopped e (emit (EOnStop e) s0)"
      using start(2) by (simp add: stopped_def)
    have b: "quiet_detached e c (emit (EOnStop e) s0)"
      using q0 stable_emit[OF stable_quiet_detached] by blast
    have p: "\<exists>xs. trace (emit (EOnStop e) s0) = (trace s0 @ [EOnStop e]) @ xs"
      by simp
    from stable_exec[OF stable_trace_prefix[of "trace s0 @ [EOnStop e]"] p run]
    have "EOnStop e \<in> set (trace s1)" by auto
    with stable_exec[OF stable_stopped a run] stable_exec[OF stable_quiet_detached b run] hk
    show ?thesis by simp
  qed
  then have s1: "stopped e s1" and qd1: "quiet_detached e c s1" by simp_all
  from qd1 q1 have d1: "detached e s1" by (simp add: quiet_detached_def c_def)
  have later: "stopped e s2 \<and> detached e s2
       \<and> (\<forall>t k ty l. notified s2 t k ty = Some l \<longrightarrow> e \<notin> set l)"
    if run: "exec m tk s1 = Some (r2, s2)" and q2: "run_count e s2 = run_count e s"
    for m tk r2 s2
  proof -
    from stable_exec[OF stable_quiet_detached qd1 run] have qd2: "quiet_detached e c s2" .
    with q2 have "detached e s2" by (simp add: quiet_detached_def c_def)
    moreover from stable_exec[OF stable_stopped s1 run] have "stopped e s2" .
    moreover have "\<forall>t k ty l. notified s2 t k ty = Some l \<longrightarrow> e \<notin> set l"
      using quiet_detached_notified[OF qd2] q2 c_def by blast
    ultimately show ?thesis by blast
  qed
  from base d1 s1 later show ?thesis by blast
qed

text \<open>
  An instance: an effect reading \<open>c.k\<close>, with a hook, is stopped; the write \<open>c.k = 2\<close>
  that follows does not run it.
\<close>

theorem stop_detaches_witness:
  "registry_ok (final_state 10 sc_stoppable)
   \<and> registered 0 (final_state 10 sc_stoppable)
   \<and> active (effects (final_state 10 sc_stoppable) ! 0)
   \<and> stop (exec 5) 0 (final_state 10 sc_stoppable)
       = Some (Normal VUndefined, after_stop 5 0 (final_state 10 sc_stoppable))
   \<and> stopped 0 (after_stop 5 0 (final_state 10 sc_stoppable))
   \<and> detached 0 (after_stop 5 0 (final_state 10 sc_stoppable))
   \<and> EOnStop 0 \<in> set (trace (after_stop 5 0 (final_state 10 sc_stoppable)))
   \<and> (\<exists>r2 s2. exec 5 (TProg (SetProp (VProxy 0) (Name ''k'') (VNum 2) (Ret VUndefined)))
                   (after_stop 5 0 (final_state 10 sc_stoppable)) = Some (r2, s2)
         \<and> run_count 0 s2 = 1 \<and> stopped 0 s2 \<and> detached 0 s2
         \<and> (\<forall>t k ty l. notified s2 t k ty = Some l \<longrightarrow> 0 \<notin> set l))"
proof -
  define s where "s = final_state 10 sc_stoppable"
  define s1 where "s1 = after_stop 5 0 s"
  let ?w = "TProg (SetProp (VProxy 0) (Name ''k'') (VNum 2) (Ret VUndefined))"
  define s2 where "s2 = (case exec 5 ?w s1 of Some (r, s') \<Rightarrow> s' | None \<Rightarrow> s1)"
  have ok: "registry_ok s" unfolding s_def by code_simp
  have reg: "registered 0 s" unfolding s_def by code_simp
  have e: "0 < length (effects s)" unfolding s_def by code_simp
  have act: "active (effects s ! 0)" unfolding s_def by code_simp
  have idle: "0 \<notin> set (effectStack s)" unfolding s_def by code_simp
  have hook: "opt_onStop (effects s ! 0) \<noteq> None" unfolding s_def by code_simp
  have d: "stop (exec 5) 0 s \<noteq> None" unfolding s_def by code_simp
  have o: "map_option fst (stop (exec 5) 0 s) = Some (Normal VUndefined)"
    unfolding s_def by code_simp
  from d o have st: "stop (exec 5) 0 s = Some (Normal VUndefined, s1)"
    by (cases "stop (exec 5) 0 s") (auto simp: s1_def after_stop_def)
  have q1: "run_count 0 s1 = run_count 0 s" unfolding s1_def s_def by code_simp
  have d2: "exec 5 ?w s1 \<noteq> None" unfolding s1_def s_def by code_simp
  then obtain r2 where w: "exec 5 ?w s1 = Some (r2, s2)"
    by (cases "exec 5 ?w s1") (auto simp: s2_def)
  have q2: "run_count 0 s2 = run_count 0 s" unfolding s2_def s1_def s_def by code_simp
  have c: "run_count 0 s = 1" unfolding s_def by code_simp
  note inst = stop_detaches[OF ok e act idle st q1]
  from inst hook have a: "stopped 0 s1" "detached 0 s1" "EOnStop 0 \<in> set (trace s1)"
    by blast+
  from inst w q2 have b: "stopped 0 s2 \<and> detached 0 s2
      \<and> (\<forall>t k ty l. notified s2 t k ty = Some l \<longrightarrow> 0 \<notin> set l)"
    by blast
  from ok reg act st a w q2 c b show ?thesis
    unfolding s1_def s_def by (metis (no_types, lifting))
qed

subsection \<open>C7: a watcher with flush sync\<close>

text \<open>
  Claim C7. In \<open>x = ref(1); watch(() => x.value, cb, {flush: 'sync'}); x.value = 9;
  mark(0); k\<close>, for every callback \<open>cb\<close> and continuation \<open>k\<close>: every run that ends has
  entered the callback in the state \<open>watch_mid cb\<close>, inside the write (the last events
  are the \<open>ETrigger\<close> of the write, the scheduler call, the run of the getter and
  \<open>ECallback 0 (VNum 9) (VNum 1)\<close>: the callback is called with 9 and 1), and the callback
  has ended there. The statement after the write, \<open>mark(0)\<close>, is executed only after the
  callback has returned, and not at all when it has thrown.
\<close>

theorem sync_watch_callback_before_return:
  assumes "run n (sc_watch cb k) init = Some (r, s')"
  shows "trace (watch_mid cb) =
           [ERun 0, ETrack (TRef 0) (Name ''value''), ETrigger (TRef 0) (Name ''value'') TSet,
            ESched 0, ERun 0, ETrack (TRef 0) (Name ''value''), ECallback 0 (VNum 9) (VNum 1)]
       \<and> (\<exists>m out s1. exec m (TProg (cb 0 (VNum 9) (VNum 1))) (watch_mid cb) = Some (out, s1)
            \<and> (case out of
                  Thrown x \<Rightarrow> r = Thrown x \<and> s' = s1
                | Normal v \<Rightarrow>
                    (\<exists>m2. exec m2 (TProg k) (emit (EMark 0) (set_oldValue 0 (VNum 9) s1))
                             = Some (r, s'))))
       \<and> (\<exists>xs. trace s' = trace (watch_mid cb) @ xs)"
proof -
  from assms have "exec n (TProg (sc_watch cb k)) init = Some (r, s')" by (simp add: run_def)
  from exec_mono[OF this, of 5]
  have "run (Suc (Suc (Suc (Suc (Suc n))))) (sc_watch cb k) init = Some (r, s')"
    by (simp add: run_def eval_nat_numeral del: exec.simps)
  then have c: "(case exec (Suc (Suc n)) (TProg (cb 0 (VNum 9) (VNum 1))) (watch_mid cb) of
        None \<Rightarrow> None
      | Some (Normal v, s1) \<Rightarrow>
          exec (Suc n) (TProg k) (emit (EMark 0) (set_oldValue 0 (VNum 9) s1))
      | Some (Thrown x, s1) \<Rightarrow> Some (Thrown x, s1)) = Some (r, s')"
    by (simp only: sc_watch_unfold)
  then obtain out s1 where
    cbr: "exec (Suc (Suc n)) (TProg (cb 0 (VNum 9) (VNum 1))) (watch_mid cb) = Some (out, s1)"
    by (cases "exec (Suc (Suc n)) (TProg (cb 0 (VNum 9) (VNum 1))) (watch_mid cb)") auto
  have p0: "\<exists>xs. trace (watch_mid cb) = trace (watch_mid cb) @ xs" by simp
  from stable_exec[OF stable_trace_prefix p0 cbr]
  obtain xs where xs: "trace s1 = trace (watch_mid cb) @ xs" by blast
  have t: "trace (watch_mid cb) =
           [ERun 0, ETrack (TRef 0) (Name ''value''), ETrigger (TRef 0) (Name ''value'') TSet,
            ESched 0, ERun 0, ETrack (TRef 0) (Name ''value''), ECallback 0 (VNum 9) (VNum 1)]"
    by (simp add: watch_mid_def)
  show ?thesis
  proof (cases out)
    case (Thrown x)
    with c cbr have "r = Thrown x \<and> s' = s1" by simp
    with Thrown have o: "(case out of
                  Thrown x \<Rightarrow> r = Thrown x \<and> s' = s1
                | Normal v \<Rightarrow>
                    (\<exists>m2. exec m2 (TProg k) (emit (EMark 0) (set_oldValue 0 (VNum 9) s1))
                             = Some (r, s')))" by simp
    from \<open>r = Thrown x \<and> s' = s1\<close> xs have "\<exists>xs. trace s' = trace (watch_mid cb) @ xs"
      by blast
    with t cbr o show ?thesis by blast
  next
    case (Normal v)
    with c cbr have k: "exec (Suc n) (TProg k) (emit (EMark 0) (set_oldValue 0 (VNum 9) s1))
        = Some (r, s')" by simp
    have "\<exists>ys. trace (emit (EMark 0) (set_oldValue 0 (VNum 9) s1)) = trace (watch_mid cb) @ ys"
      using xs by (simp add: set_oldValue_def)
    from stable_exec[OF stable_trace_prefix this k]
    have "\<exists>ys. trace s' = trace (watch_mid cb) @ ys" .
    then have e: "\<exists>xs. trace s' = trace (watch_mid cb) @ xs" .
    from k have "\<exists>m2. exec m2 (TProg k) (emit (EMark 0) (set_oldValue 0 (VNum 9) s1))
                             = Some (r, s')" by blast
    with Normal have o: "(case out of
                  Thrown x \<Rightarrow> r = Thrown x \<and> s' = s1
                | Normal v \<Rightarrow>
                    (\<exists>m2. exec m2 (TProg k) (emit (EMark 0) (set_oldValue 0 (VNum 9) s1))
                             = Some (r, s')))" by simp
    with t cbr e show ?thesis by blast
  qed
qed

text \<open>An instance: a callback that does nothing; \<open>EMark 0\<close> comes after \<open>ECallback\<close>.\<close>

theorem sync_watch_callback_before_return_witness:
  "run 10 (sc_watch (\<lambda>w nv ov. Ret VUndefined) (Ret VUndefined)) init
     = Some (Normal VUndefined, final_state 10 (sc_watch (\<lambda>w nv ov. Ret VUndefined) (Ret VUndefined)))
   \<and> trace (final_state 10 (sc_watch (\<lambda>w nv ov. Ret VUndefined) (Ret VUndefined)))
     = [ERun 0, ETrack (TRef 0) (Name ''value''), ETrigger (TRef 0) (Name ''value'') TSet,
        ESched 0, ERun 0, ETrack (TRef 0) (Name ''value''), ECallback 0 (VNum 9) (VNum 1),
        EMark 0]
   \<and> (\<exists>xs. trace (final_state 10 (sc_watch (\<lambda>w nv ov. Ret VUndefined) (Ret VUndefined)))
         = trace (watch_mid (\<lambda>w nv ov. Ret VUndefined)) @ xs)"
proof -
  let ?p = "sc_watch (\<lambda>w nv ov. Ret VUndefined) (Ret VUndefined)"
  have d: "run 10 ?p init \<noteq> None" by code_simp
  have o: "map_option fst (run 10 ?p init) = Some (Normal VUndefined)" by code_simp
  from d o have h: "run 10 ?p init = Some (Normal VUndefined, final_state 10 ?p)"
    by (cases "run 10 ?p init") (auto simp: final_state_def)
  have t: "trace (final_state 10 ?p)
     = [ERun 0, ETrack (TRef 0) (Name ''value''), ETrigger (TRef 0) (Name ''value'') TSet,
        ESched 0, ERun 0, ETrack (TRef 0) (Name ''value''), ECallback 0 (VNum 9) (VNum 1),
        EMark 0]" by code_simp
  from sync_watch_callback_before_return[OF h]
  have "\<exists>xs. trace (final_state 10 ?p) = trace (watch_mid (\<lambda>w nv ov. Ret VUndefined)) @ xs"
    by blast
  with h t show ?thesis by blast
qed

subsection \<open>C9: batch\<close>

text \<open>
  Claim C9, as the code has it. \<open>batch\<close> keeps no count of nested calls: every call that
  ends, whatever the flag was on entry, has run \<open>fn\<close> with the flag set and then cleared
  the flag and emptied the queue.
\<close>

theorem batch_clears_flag_at_every_completion:
  assumes q: "batchQueue s = []" and b: "batch (exec n) f s = Some (r, s')"
  shows "\<exists>s1. exec n (TProg f) (set_batching True s) = Some (r, s1)
           \<and> s' = clear_queue (set_batching False s1)
           \<and> \<not> isBatching s' \<and> batchQueue s' = []"
proof (cases "exec n (TProg f) (set_batching True s)")
  case None
  with b show ?thesis by (simp add: batch_def try_finally_def)
next
  case (Some p)
  obtain out s1 where p: "p = (out, s1)" by (cases p)
  from q have "batchQueue (set_batching True s) = []" by (simp add: set_batching_def)
  from stable_exec[OF stable_queue_empty this] Some p have q1: "batchQueue s1 = []" by simp
  then have q2: "batchQueue (set_batching False s1) = []" by (simp add: set_batching_def)
  from b Some p q2 have "r = out" "s' = clear_queue (set_batching False s1)"
    by (simp_all add: batch_def try_finally_def bnd_def upd_def ret_def)
  with Some p show ?thesis by (simp add: clear_queue_def set_batching_def)
qed

text \<open>An instance: a call of \<open>batch\<close> made while the flag is set.\<close>

theorem batch_clears_flag_at_every_completion_witness:
  "batchQueue (set_batching True init) = []
   \<and> isBatching (set_batching True init)
   \<and> batch (exec 1) (Ret VUndefined) (set_batching True init)
        = Some (Normal VUndefined, clear_queue (set_batching False (set_batching True (set_batching True init))))
   \<and> \<not> isBatching (clear_queue (set_batching False (set_batching True (set_batching True init))))"
proof -
  let ?s = "set_batching True init"
  have q: "batchQueue ?s = []" by (simp add: set_batching_def init_def)
  have f: "isBatching ?s" by (simp add: set_batching_def)
  have e: "exec 1 (TProg (Ret VUndefined)) (set_batching True ?s) = Some (Normal VUndefined, set_batching True ?s)"
    by (simp add: exec_body_def run_prog_def ret_def)
  then have b: "batch (exec 1) (Ret VUndefined) ?s
     = Some (Normal VUndefined, clear_queue (set_batching False (set_batching True ?s)))"
    using q by (simp add: batch_def try_finally_def bnd_def upd_def ret_def set_batching_def)
  from batch_clears_flag_at_every_completion[OF q b]
  have "\<not> isBatching (clear_queue (set_batching False (set_batching True ?s)))" by blast
  with q f b show ?thesis by blast
qed

text \<open>
  Claim C9 as stated fails: a call of \<open>batch\<close> that ends while an outer one is active
  (the flag is set on entry) leaves the flag cleared.
\<close>

theorem inner_batch_clears_flag:
  "\<not> (\<forall>s r s'. isBatching s \<longrightarrow> batch (exec 1) (Ret VUndefined) s = Some (r, s') \<longrightarrow> isBatching s')"
proof
  assume a: "\<forall>s r s'. isBatching s \<longrightarrow> batch (exec 1) (Ret VUndefined) s = Some (r, s') \<longrightarrow> isBatching s'"
  let ?s = "set_batching True init"
  have f: "isBatching ?s" by (simp add: set_batching_def)
  have b: "batch (exec 1) (Ret VUndefined) ?s
     = Some (Normal VUndefined, clear_queue (set_batching False (set_batching True ?s)))"
    by (simp add: batch_def try_finally_def bnd_def upd_def ret_def set_batching_def
        exec_body_def run_prog_def init_def)
  from a f b have "isBatching (clear_queue (set_batching False (set_batching True ?s)))" by blast
  then show False by (simp add: clear_queue_def set_batching_def)
qed

end
